theory Spec2Isabelle
  imports Complex_Main "HOL-Library.AList"
begin

section \<open>Colour reconciler: data model\<close>

text \<open>
  The worker keeps colours as JavaScript arrays of three numbers. JavaScript numbers are
  modelled as real numbers: rounding of IEEE doubles and the value NaN are not modelled.
\<close>

type_synonym vec3 = "real \<times> real \<times> real"

text \<open>\<^verbatim>\<open>clusterInfo[k] = { id, count, center_bgr, center_lab, center_hex }\<close>\<close>

record cluster =
  cluster_id :: int
  count :: nat
  center_bgr :: vec3
  center_lab :: vec3
  center_hex :: string

text \<open>
  A JavaScript object with integer keys is an association list read through
  \<^const>\<open>map_of\<close>; \<^verbatim>\<open>Object.keys(o).map(parseInt).sort((a, b) => a - b)\<close> is
  \<open>keys_sorted\<close> and \<^verbatim>\<open>Object.keys(o).length\<close> is \<open>nkeys\<close>.
\<close>

type_synonym clusterInfo = "(int \<times> cluster) list"

definition keys_sorted :: "clusterInfo \<Rightarrow> int list" where
  "keys_sorted ci = sort (remdups (map fst ci))"

definition nkeys :: "clusterInfo \<Rightarrow> nat" where
  "nkeys ci = length (remdups (map fst ci))"

subsection \<open>bgrToHex\<close>

definition js_round :: "real \<Rightarrow> int" where
  "js_round x = \<lfloor>x + 1 / 2\<rfloor>"

definition hexdig :: "nat \<Rightarrow> char" where
  "hexdig n = ''0123456789ABCDEF'' ! n"

definition hex2 :: "int \<Rightarrow> string" where
  "hex2 v = [hexdig (nat v div 16), hexdig (nat v mod 16)]"

definition bgrToHex :: "real \<Rightarrow> real \<Rightarrow> real \<Rightarrow> string" where
  "bgrToHex b g r =
     (let rr = max 0 (min 255 (js_round r));
          gg = max 0 (min 255 (js_round g));
          bb = max 0 (min 255 (js_round b))
      in CHR ''#'' # hex2 rr @ hex2 gg @ hex2 bb)"

subsection \<open>labDist3\<close>

definition labDist3 :: "vec3 \<Rightarrow> vec3 \<Rightarrow> real" where
  "labDist3 a b =
     (case a of (a0, a1, a2) \<Rightarrow> case b of (b0, b1, b2) \<Rightarrow>
        let dx = a0 - b0; dy = a1 - b1; dz = a2 - b2
        in sqrt (dx * dx + dy * dy + dz * dz))"


section \<open>mergeClustersToExpectedCount\<close>

text \<open>One entry of \<^verbatim>\<open>merges\<close>: the object \<^verbatim>\<open>{ keep, drop, d }\<close>.\<close>

record merge_rec =
  m_keep :: int
  m_drop :: int
  m_d :: real

text \<open>The object returned: \<^verbatim>\<open>{ labels, clusterInfo, merges, expectedColors }\<close>;
  \<^verbatim>\<open>expectedColors: null\<close> is \<open>None\<close>.\<close>

record merge_result =
  labels :: "int list"
  clusterInfo :: clusterInfo
  merges :: "merge_rec list"
  expectedColors :: "int option"

text \<open>
  \<^verbatim>\<open>mergeInto(keepId, dropId)\<close>: the labels are rewritten first; the cluster map changes
  only when both ids are present (\<^verbatim>\<open>if (!a || !b) return;\<close>).
\<close>

definition weighted :: "real \<Rightarrow> real \<Rightarrow> vec3 \<Rightarrow> vec3 \<Rightarrow> vec3" where
  "weighted wA wB a b =
     (case a of (a0, a1, a2) \<Rightarrow> case b of (b0, b1, b2) \<Rightarrow>
        (a0 * wA + b0 * wB, a1 * wA + b1 * wB, a2 * wA + b2 * wB))"

definition merged_cluster :: "cluster \<Rightarrow> cluster \<Rightarrow> cluster" where
  "merged_cluster a b =
     (let tot = count a + count b;
          wA = real (count a) / real tot;
          wB = real (count b) / real tot;
          cbgr = weighted wA wB (center_bgr a) (center_bgr b);
          clab = weighted wA wB (center_lab a) (center_lab b)
      in a\<lparr>count := tot, center_bgr := cbgr, center_lab := clab,
            center_hex := (case cbgr of (cb, cg, cr) \<Rightarrow> bgrToHex cb cg cr)\<rparr>)"

definition mergeInto :: "int \<Rightarrow> int \<Rightarrow> int list \<times> clusterInfo \<Rightarrow> int list \<times> clusterInfo" where
  "mergeInto keepId dropId s =
     (case s of (ls, ci) \<Rightarrow>
        let ls' = map (\<lambda>l. if l = dropId then keepId else l) ls
        in (case map_of ci keepId of
              None \<Rightarrow> (ls', ci)
            | Some a \<Rightarrow>
                (case map_of ci dropId of
                   None \<Rightarrow> (ls', ci)
                 | Some b \<Rightarrow>
                     (ls', AList.delete dropId (AList.update keepId (merged_cluster a b) ci)))))"

text \<open>
  The double loop \<^verbatim>\<open>for i ... for j = i + 1 ...\<close> over the sorted ids visits the pairs
  in the order of \<open>pairs_of\<close>; \<open>best_step\<close> is its body.
\<close>

fun pairs_of :: "'a list \<Rightarrow> ('a \<times> 'a) list" where
  "pairs_of [] = []"
| "pairs_of (x # xs) = map (Pair x) xs @ pairs_of xs"

definition best_step ::
  "clusterInfo \<Rightarrow> int \<Rightarrow> real \<Rightarrow> merge_rec option \<Rightarrow> int \<times> int \<Rightarrow> merge_rec option" where
  "best_step ci cap maxDist best p =
     (case p of (idA, idB) \<Rightarrow>
        (case map_of ci idA of
          None \<Rightarrow> best
        | Some a \<Rightarrow>
            (case map_of ci idB of
               None \<Rightarrow> best
             | Some b \<Rightarrow>
                 if int (count a + count b) > cap then best
                 else let dd = labDist3 (center_lab a) (center_lab b) in
                   if dd > maxDist then best
                   else (case best of
                           None \<Rightarrow> Some \<lparr>m_keep = min idA idB, m_drop = max idA idB, m_d = dd\<rparr>
                         | Some bst \<Rightarrow>
                             if dd < m_d bst
                             then Some \<lparr>m_keep = min idA idB, m_drop = max idA idB, m_d = dd\<rparr>
                             else best))))"

definition find_best :: "clusterInfo \<Rightarrow> int \<Rightarrow> real \<Rightarrow> merge_rec option" where
  "find_best ci cap maxDist = foldl (best_step ci cap maxDist) None (pairs_of (keys_sorted ci))"

text \<open>One pass of the \<^verbatim>\<open>while\<close> loop; \<open>None\<close> when the loop is left.\<close>

definition merge_iter ::
  "int \<Rightarrow> real \<Rightarrow> int \<Rightarrow> int list \<times> clusterInfo \<times> merge_rec list
     \<Rightarrow> (int list \<times> clusterInfo \<times> merge_rec list) option" where
  "merge_iter cap maxDist expected s =
     (case s of (ls, ci, ms) \<Rightarrow>
        if int (nkeys ci) > expected then
          (case find_best ci cap maxDist of
             None \<Rightarrow> None
           | Some best \<Rightarrow>
               (case mergeInto (m_keep best) (m_drop best) (ls, ci) of
                  (ls', ci') \<Rightarrow> Some (ls', ci', ms @ [best])))
        else None)"


subsection \<open>Facts about the key list\<close>

lemma set_keys_sorted: "set (keys_sorted ci) = dom (map_of ci)"
  by (simp add: keys_sorted_def dom_map_of_conv_image_fst)

lemma sorted_keys_sorted: "sorted (keys_sorted ci)"
  by (simp add: keys_sorted_def)

lemma distinct_keys_sorted: "distinct (keys_sorted ci)"
  by (simp add: keys_sorted_def)

lemma nkeys_card: "nkeys ci = card (dom (map_of ci))"
  by (simp add: nkeys_def length_remdups_card_conv dom_map_of_conv_image_fst)

lemma length_keys_sorted: "length (keys_sorted ci) = nkeys ci"
  by (simp add: keys_sorted_def nkeys_def)

lemma set_pairs_of:
  "sorted xs \<Longrightarrow> distinct xs \<Longrightarrow>
     set (pairs_of xs) = {(a, b). a \<in> set xs \<and> b \<in> set xs \<and> a < (b::int)}"
proof (induction xs)
  case Nil
  then show ?case by simp
next
  case (Cons x xs)
  then have lt: "\<forall>y\<in>set xs. x < y"
    by (auto simp: less_le)
  from Cons have "set (pairs_of xs) = {(a, b). a \<in> set xs \<and> b \<in> set xs \<and> a < b}"
    by simp
  with lt show ?case by auto
qed


subsection \<open>Eligible pairs and the pair chosen by one pass\<close>

text \<open>
  A pair of cluster ids can be merged when both are live, their member counts sum to at
  most the capacity and their Lab centroids are at most \<open>maxDist\<close> apart.
\<close>

definition mergeable :: "(int \<rightharpoonup> cluster) \<Rightarrow> int \<Rightarrow> real \<Rightarrow> int \<Rightarrow> int \<Rightarrow> bool" where
  "mergeable m cap maxDist x y =
     (\<exists>a b. m x = Some a \<and> m y = Some b \<and> int (count a + count b) \<le> cap \<and>
        labDist3 (center_lab a) (center_lab b) \<le> maxDist)"

definition cdist :: "(int \<rightharpoonup> cluster) \<Rightarrow> int \<Rightarrow> int \<Rightarrow> real" where
  "cdist m x y = labDist3 (center_lab (the (m x))) (center_lab (the (m y)))"

definition eligible :: "(int \<rightharpoonup> cluster) \<Rightarrow> int \<Rightarrow> real \<Rightarrow> int \<Rightarrow> int \<Rightarrow> bool" where
  "eligible m cap maxDist x y = (x \<noteq> y \<and> mergeable m cap maxDist x y)"

lemma labDist3_sym: "labDist3 a b = labDist3 b a"
  by (cases a, cases b) (simp add: labDist3_def Let_def power2_commute[symmetric] algebra_simps)

lemma mergeable_sym: "mergeable m cap mx x y = mergeable m cap mx y x"
  by (auto simp: mergeable_def labDist3_sym add.commute)

lemma cdist_sym: "cdist m x y = cdist m y x"
  by (simp add: cdist_def labDist3_sym)

lemma best_step_cases:
  "best_step ci cap mx b0 (x, y) =
     (if mergeable (map_of ci) cap mx x y \<and>
         (case b0 of None \<Rightarrow> True | Some b \<Rightarrow> cdist (map_of ci) x y < m_d b)
      then Some \<lparr>m_keep = min x y, m_drop = max x y, m_d = cdist (map_of ci) x y\<rparr>
      else b0)"
  by (auto simp: best_step_def mergeable_def cdist_def Let_def split: option.splits)

definition chosen :: "(int \<rightharpoonup> cluster) \<Rightarrow> int \<times> int \<Rightarrow> merge_rec" where
  "chosen m p = (case p of (x, y) \<Rightarrow> \<lparr>m_keep = min x y, m_drop = max x y, m_d = cdist m x y\<rparr>)"

lemma foldl_best_step_None:
  "foldl (best_step ci cap mx) b0 ps = None \<longleftrightarrow>
     b0 = None \<and> (\<forall>(x, y)\<in>set ps. \<not> mergeable (map_of ci) cap mx x y)"
proof (induction ps arbitrary: b0)
  case Nil
  then show ?case by simp
next
  case (Cons p ps)
  obtain x y where p: "p = (x, y)" by (cases p)
  show ?case
    by (simp add: p Cons.IH best_step_cases split: option.splits)
qed

lemma foldl_best_step_Some:
  "foldl (best_step ci cap mx) b0 ps = Some b \<Longrightarrow>
     (b0 = Some b \<or> (\<exists>p\<in>set ps. mergeable (map_of ci) cap mx (fst p) (snd p) \<and>
                        b = chosen (map_of ci) p)) \<and>
     (\<forall>p\<in>set ps. mergeable (map_of ci) cap mx (fst p) (snd p) \<longrightarrow>
                   m_d b \<le> cdist (map_of ci) (fst p) (snd p)) \<and>
     (\<forall>b'. b0 = Some b' \<longrightarrow> m_d b \<le> m_d b')"
proof (induction ps arbitrary: b0)
  case Nil
  then show ?case by simp
next
  case (Cons p ps)
  obtain x y where p: "p = (x, y)" by (cases p)
  let ?b1 = "best_step ci cap mx b0 (x, y)"
  from Cons.prems have f: "foldl (best_step ci cap mx) ?b1 ps = Some b"
    by (simp add: p)
  note IH = Cons.IH[OF f]
  show ?case
  proof (cases "mergeable (map_of ci) cap mx x y \<and>
         (case b0 of None \<Rightarrow> True | Some b \<Rightarrow> cdist (map_of ci) x y < m_d b)")
    case True
    then have b1: "?b1 = Some (chosen (map_of ci) (x, y))"
      by (simp add: best_step_cases chosen_def)
    have dx: "m_d (chosen (map_of ci) (x, y)) = cdist (map_of ci) x y"
      by (simp add: chosen_def)
    from IH b1 dx have le: "m_d b \<le> cdist (map_of ci) x y"
      by auto
    from IH b1 have 1: "b0 = Some b \<or> (\<exists>q\<in>set (p # ps). mergeable (map_of ci) cap mx (fst q) (snd q) \<and>
                        b = chosen (map_of ci) q)"
      using True by (auto simp: p)
    from IH le have 2: "\<forall>q\<in>set (p # ps). mergeable (map_of ci) cap mx (fst q) (snd q) \<longrightarrow>
                   m_d b \<le> cdist (map_of ci) (fst q) (snd q)"
      by (auto simp: p)
    from True le have 3: "\<forall>b'. b0 = Some b' \<longrightarrow> m_d b \<le> m_d b'"
      by (auto split: option.splits)
    from 1 2 3 show ?thesis by blast
  next
    case False
    then have b1: "?b1 = b0"
      unfolding best_step_cases by (simp only: if_False)
    from IH b1 have 1: "b0 = Some b \<or> (\<exists>q\<in>set (p # ps). mergeable (map_of ci) cap mx (fst q) (snd q) \<and>
                        b = chosen (map_of ci) q)"
      by auto
    from IH b1 have 3: "\<forall>b'. b0 = Some b' \<longrightarrow> m_d b \<le> m_d b'"
      by simp
    have "mergeable (map_of ci) cap mx x y \<longrightarrow> m_d b \<le> cdist (map_of ci) x y"
    proof
      assume m: "mergeable (map_of ci) cap mx x y"
      with False obtain b' where "b0 = Some b'" "\<not> cdist (map_of ci) x y < m_d b'"
        by (auto split: option.splits)
      with 3 show "m_d b \<le> cdist (map_of ci) x y" by force
    qed
    with IH b1 have 2: "\<forall>q\<in>set (p # ps). mergeable (map_of ci) cap mx (fst q) (snd q) \<longrightarrow>
                   m_d b \<le> cdist (map_of ci) (fst q) (snd q)"
      by (auto simp: p)
    from 1 2 3 show ?thesis by blast
  qed
qed


lemma mergeable_dom: "mergeable m cap mx x y \<Longrightarrow> x \<in> dom m \<and> y \<in> dom m"
  by (auto simp: mergeable_def)

lemma set_pairs_keys:
  "set (pairs_of (keys_sorted ci)) =
     {(a, b). a \<in> dom (map_of ci) \<and> b \<in> dom (map_of ci) \<and> a < b}"
  using set_pairs_of[OF sorted_keys_sorted distinct_keys_sorted, of ci]
  by (simp add: set_keys_sorted)

lemma find_best_None:
  "find_best ci cap mx = None \<longleftrightarrow> (\<forall>x y. \<not> eligible (map_of ci) cap mx x y)"
proof
  assume "find_best ci cap mx = None"
  then have no: "\<forall>(x, y)\<in>set (pairs_of (keys_sorted ci)). \<not> mergeable (map_of ci) cap mx x y"
    by (simp add: find_best_def foldl_best_step_None)
  show "\<forall>x y. \<not> eligible (map_of ci) cap mx x y"
  proof (intro allI notI)
    fix x y
    assume e: "eligible (map_of ci) cap mx x y"
    then have m: "mergeable (map_of ci) cap mx x y" and ne: "x \<noteq> y"
      by (simp_all add: eligible_def)
    from m have dm: "x \<in> dom (map_of ci)" "y \<in> dom (map_of ci)"
      using mergeable_dom by blast+
    show False
    proof (cases "x < y")
      case True
      with dm have "(x, y) \<in> set (pairs_of (keys_sorted ci))"
        by (simp add: set_pairs_keys)
      with no m show False by blast
    next
      case False
      with ne dm have "(y, x) \<in> set (pairs_of (keys_sorted ci))"
        by (simp add: set_pairs_keys)
      with no m show False using mergeable_sym by blast
    qed
  qed
next
  assume no: "\<forall>x y. \<not> eligible (map_of ci) cap mx x y"
  have "\<forall>(x, y)\<in>set (pairs_of (keys_sorted ci)). \<not> mergeable (map_of ci) cap mx x y"
  proof (clarify)
    fix x y
    assume "(x, y) \<in> set (pairs_of (keys_sorted ci))" and m: "mergeable (map_of ci) cap mx x y"
    then have "x \<noteq> y" by (simp add: set_pairs_keys)
    with m have "eligible (map_of ci) cap mx x y" by (simp add: eligible_def)
    with no show False by blast
  qed
  then show "find_best ci cap mx = None"
    by (simp add: find_best_def foldl_best_step_None)
qed

lemma find_best_Some:
  assumes "find_best ci cap mx = Some b"
  shows "m_keep b < m_drop b"
    and "eligible (map_of ci) cap mx (m_keep b) (m_drop b)"
    and "m_d b = cdist (map_of ci) (m_keep b) (m_drop b)"
    and "\<And>x y. eligible (map_of ci) cap mx x y \<Longrightarrow> m_d b \<le> cdist (map_of ci) x y"
proof -
  let ?m = "map_of ci" and ?ps = "pairs_of (keys_sorted ci)"
  from assms have f: "foldl (best_step ci cap mx) None ?ps = Some b"
    by (simp add: find_best_def)
  from foldl_best_step_Some[OF f]
  obtain p where p: "p \<in> set ?ps" "mergeable ?m cap mx (fst p) (snd p)" "b = chosen ?m p"
    and mn: "\<forall>q\<in>set ?ps. mergeable ?m cap mx (fst q) (snd q) \<longrightarrow> m_d b \<le> cdist ?m (fst q) (snd q)"
    by auto
  obtain x y where xy: "p = (x, y)" by (cases p)
  from p(1) xy have lt: "x < y"
    by (simp add: set_pairs_keys)
  from p(3) xy lt have kd: "m_keep b = x" "m_drop b = y" "m_d b = cdist ?m x y"
    by (simp_all add: chosen_def)
  show "m_keep b < m_drop b" using kd lt by simp
  show "eligible ?m cap mx (m_keep b) (m_drop b)"
    using p(2) xy lt kd by (simp add: eligible_def)
  show "m_d b = cdist ?m (m_keep b) (m_drop b)" using kd by simp
  fix u v
  assume e: "eligible ?m cap mx u v"
  then have m: "mergeable ?m cap mx u v" and ne: "u \<noteq> v"
    by (simp_all add: eligible_def)
  from m have dm: "u \<in> dom ?m" "v \<in> dom ?m"
    using mergeable_dom by blast+
  show "m_d b \<le> cdist ?m u v"
  proof (cases "u < v")
    case True
    with dm have "(u, v) \<in> set ?ps" by (simp add: set_pairs_keys)
    with mn m show ?thesis by force
  next
    case False
    with ne dm have "(v, u) \<in> set ?ps" by (simp add: set_pairs_keys)
    moreover have "mergeable ?m cap mx v u" using m mergeable_sym by blast
    ultimately have "m_d b \<le> cdist ?m v u" using mn by force
    then show ?thesis by (simp add: cdist_sym)
  qed
qed

subsection \<open>Effect of mergeInto\<close>

lemma mergeInto_present:
  assumes "map_of ci k = Some a" "map_of ci dr = Some b"
  shows "mergeInto k dr (ls, ci) =
           (map (\<lambda>l. if l = dr then k else l) ls,
            AList.delete dr (AList.update k (merged_cluster a b) ci))"
  using assms by (simp add: mergeInto_def)

lemma map_of_merged:
  "map_of (AList.delete dr (AList.update k c ci)) = ((map_of ci)(k \<mapsto> c))(dr := None)"
  by (simp add: delete_conv' update_conv')

lemma nkeys_merged:
  assumes "k \<in> dom (map_of ci)" "dr \<in> dom (map_of ci)" "k \<noteq> dr"
  shows "nkeys (AList.delete dr (AList.update k c ci)) = nkeys ci - 1"
    and "0 < nkeys ci"
proof -
  have fin: "finite (dom (map_of ci))" by (rule finite_dom_map_of)
  from assms have "dom (((map_of ci)(k \<mapsto> c))(dr := None)) = dom (map_of ci) - {dr}"
    by auto
  then show "nkeys (AList.delete dr (AList.update k c ci)) = nkeys ci - 1"
    using assms(2) fin by (simp add: nkeys_card map_of_merged del: fun_upd_apply)
  from assms(2) fin show "0 < nkeys ci"
    unfolding nkeys_card using card_gt_0_iff by blast
qed

lemma merge_iter_Some:
  assumes "merge_iter cap mx ex (ls, ci, ms) = Some (ls', ci', ms')"
  obtains b a c where
    "int (nkeys ci) > ex" "find_best ci cap mx = Some b"
    "map_of ci (m_keep b) = Some a" "map_of ci (m_drop b) = Some c"
    "ls' = map (\<lambda>l. if l = m_drop b then m_keep b else l) ls"
    "ci' = AList.delete (m_drop b) (AList.update (m_keep b) (merged_cluster a c) ci)"
    "ms' = ms @ [b]"
proof -
  from assms have gt: "int (nkeys ci) > ex"
    by (simp add: merge_iter_def split: if_splits)
  with assms obtain b where b: "find_best ci cap mx = Some b"
    and r: "mergeInto (m_keep b) (m_drop b) (ls, ci) = (ls', ci')" "ms' = ms @ [b]"
    by (auto simp: merge_iter_def split: option.splits prod.splits)
  from find_best_Some(2)[OF b] obtain a c where
    ac: "map_of ci (m_keep b) = Some a" "map_of ci (m_drop b) = Some c"
    by (auto simp: eligible_def mergeable_def)
  from r(1) have l: "ls' = map (\<lambda>l. if l = m_drop b then m_keep b else l) ls"
    "ci' = AList.delete (m_drop b) (AList.update (m_keep b) (merged_cluster a c) ci)"
    by (simp_all add: mergeInto_present[OF ac])
  show thesis by (rule that[OF gt b ac l r(2)])
qed

lemma merge_iter_nkeys:
  assumes "merge_iter cap mx ex (ls, ci, ms) = Some (ls', ci', ms')"
  shows "nkeys ci' < nkeys ci"
proof -
  from assms obtain b a c where b: "find_best ci cap mx = Some b"
    and ac: "map_of ci (m_keep b) = Some a" "map_of ci (m_drop b) = Some c"
    and ci': "ci' = AList.delete (m_drop b) (AList.update (m_keep b) (merged_cluster a c) ci)"
    by (rule merge_iter_Some)
  from find_best_Some(1)[OF b] have ne: "m_keep b \<noteq> m_drop b" by simp
  from ac have dm: "m_keep b \<in> dom (map_of ci)" "m_drop b \<in> dom (map_of ci)" by auto
  from nkeys_merged[OF dm ne] show ?thesis
    by (simp add: ci')
qed

subsection \<open>The loop and the function\<close>

function merge_loop ::
  "int \<Rightarrow> real \<Rightarrow> int \<Rightarrow> int list \<times> clusterInfo \<times> merge_rec list
     \<Rightarrow> int list \<times> clusterInfo \<times> merge_rec list" where
  "merge_loop cap maxDist expected s =
     (case merge_iter cap maxDist expected s of
        None \<Rightarrow> s
      | Some s' \<Rightarrow> merge_loop cap maxDist expected s')"
  by pat_completeness auto
termination
proof (relation "measure (\<lambda>(cap, maxDist, expected, ls, ci, ms). nkeys ci)")
  show "wf (measure (\<lambda>(cap, maxDist, expected, ls, ci, ms). nkeys ci))" by simp
next
  fix cap :: int and maxDist :: real and expected :: int
    and s s' :: "int list \<times> clusterInfo \<times> merge_rec list"
  assume "merge_iter cap maxDist expected s = Some s'"
  then show "((cap, maxDist, expected, s'), (cap, maxDist, expected, s))
      \<in> measure (\<lambda>(cap, maxDist, expected, ls, ci, ms). nkeys ci)"
    by (cases s, cases s') (auto dest: merge_iter_nkeys)
qed

declare merge_loop.simps [simp del]

text \<open>
  \<^verbatim>\<open>capacity\<close> and \<^verbatim>\<open>dbscanEps\<close> are JavaScript values: \<open>None\<close> stands for a value
  whose \<^verbatim>\<open>typeof\<close> is not \<^verbatim>\<open>'number'\<close>. The capacity is a slot count, an integer.
\<close>

definition mergeClustersToExpectedCount ::
  "int list \<Rightarrow> clusterInfo \<Rightarrow> int option \<Rightarrow> real option \<Rightarrow> merge_result" where
  "mergeClustersToExpectedCount labelsIn clusterInfoIn capacity dbscanEps =
     (let ls = labelsIn;
          ci = clusterInfoIn;
          nSamples = int (length ls);
          cap = (case capacity of None \<Rightarrow> None | Some c \<Rightarrow> if c > 0 then Some c else None)
      in case cap of
           None \<Rightarrow> \<lparr>labels = ls, clusterInfo = ci, merges = [], expectedColors = None\<rparr>
         | Some c \<Rightarrow>
             if nSamples = 0
             then \<lparr>labels = ls, clusterInfo = ci, merges = [], expectedColors = None\<rparr>
             else if nSamples mod c \<noteq> 0
             then \<lparr>labels = ls, clusterInfo = ci, merges = [], expectedColors = None\<rparr>
             else
               let expected = nSamples div c;
                   maxDist = max 8 ((case dbscanEps of None \<Rightarrow> 16 | Some e \<Rightarrow> e) * (12 / 10))
               in case merge_loop c maxDist expected (ls, ci, []) of
                    (ls', ci', ms) \<Rightarrow>
                      \<lparr>labels = ls', clusterInfo = ci', merges = ms,
                       expectedColors = Some expected\<rparr>)"


section \<open>clusterColorsDbscan\<close>

text \<open>
  The conversion \<^verbatim>\<open>cv.cvtColor(bgrMat, labMat, cv.COLOR_BGR2Lab)\<close> belongs to OpenCV. It
  works pixel by pixel, so it is a parameter \<open>toLab\<close> applied to every sample (the
  storing of the sample into the byte matrix included).
\<close>

definition dist3 :: "vec3 \<Rightarrow> vec3 \<Rightarrow> real" where
  "dist3 a b =
     (case a of (a0, a1, a2) \<Rightarrow> case b of (b0, b1, b2) \<Rightarrow>
        let dx = a0 - b0; dy = a1 - b1; dz = a2 - b2
        in sqrt (dx * dx + dy * dy + dz * dz))"

text \<open>\<^verbatim>\<open>labels[j] !== -1\<close> is false only for an index of the array that holds \<open>-1\<close>.\<close>

definition unlabelled :: "int list \<Rightarrow> nat \<Rightarrow> bool" where
  "unlabelled ls j = (j < length ls \<and> ls ! j = -1)"

definition inner_step ::
  "vec3 list \<Rightarrow> real \<Rightarrow> nat \<Rightarrow> nat \<Rightarrow> int list \<times> nat list \<Rightarrow> nat \<Rightarrow> int list \<times> nat list" where
  "inner_step labs eps cid p s j =
     (case s of (ls, queue) \<Rightarrow>
        if \<not> unlabelled ls j then s
        else if dist3 (labs ! p) (labs ! j) \<le> eps then (ls[j := int cid], queue @ [j])
        else s)"

definition inner_for ::
  "vec3 list \<Rightarrow> real \<Rightarrow> nat \<Rightarrow> nat \<Rightarrow> nat \<Rightarrow> int list \<times> nat list \<Rightarrow> int list \<times> nat list" where
  "inner_for labs eps n cid p s = foldl (inner_step labs eps cid p) s [0..<n]"

definition todo :: "int list \<times> nat list \<Rightarrow> nat" where
  "todo s = 2 * count_list (fst s) (-1) + length (snd s)"

lemma count_list_update:
  "j < length ls \<Longrightarrow> ls ! j = a \<Longrightarrow> a \<noteq> b \<Longrightarrow>
     Suc (count_list (ls[j := b]) a) = count_list ls a"
proof (induction ls arbitrary: j)
  case Nil
  then show ?case by simp
next
  case (Cons x xs)
  then show ?case by (cases j) auto
qed

lemma todo_inner_step: "todo (inner_step labs eps cid p s j) \<le> todo s"
proof (cases s)
  case (Pair ls queue)
  show ?thesis
  proof (cases "unlabelled ls j \<and> dist3 (labs ! p) (labs ! j) \<le> eps")
    case True
    then have "Suc (count_list (ls[j := int cid]) (-1)) = count_list ls (-1)"
      by (intro count_list_update) (simp_all add: unlabelled_def)
    with True show ?thesis
      by (simp add: Pair inner_step_def todo_def)
  next
    case False
    then show ?thesis by (auto simp: Pair inner_step_def)
  qed
qed

lemma todo_foldl_inner: "todo (foldl (inner_step labs eps cid p) s js) \<le> todo s"
proof (induction js arbitrary: s)
  case Nil
  then show ?case by simp
next
  case (Cons j js)
  have "todo (foldl (inner_step labs eps cid p) (inner_step labs eps cid p s j) js)
          \<le> todo (inner_step labs eps cid p s j)"
    by (rule Cons.IH)
  also have "\<dots> \<le> todo s" by (rule todo_inner_step)
  finally show ?case by simp
qed

text \<open>The \<^verbatim>\<open>while (queue.length)\<close> loop; \<^verbatim>\<open>queue.pop()\<close> takes the last element.\<close>

function flood ::
  "vec3 list \<Rightarrow> real \<Rightarrow> nat \<Rightarrow> nat \<Rightarrow> int list \<times> nat list \<Rightarrow> int list" where
  "flood labs eps n cid s =
     (case s of (ls, queue) \<Rightarrow>
        if queue = [] then ls
        else flood labs eps n cid (inner_for labs eps n cid (last queue) (ls, butlast queue)))"
  by pat_completeness auto
termination
proof (relation "measure (\<lambda>(labs, eps, n, cid, s). todo s)")
  show "wf (measure (\<lambda>(labs, eps, n, cid, s). todo s))" by simp
next
  fix labs :: "vec3 list" and eps :: real and n cid :: nat
    and s :: "int list \<times> nat list" and ls :: "int list" and queue :: "nat list"
  assume s: "(ls, queue) = s" and ne: "queue \<noteq> []"
  have "todo (inner_for labs eps n cid (last queue) (ls, butlast queue))
          \<le> todo (ls, butlast queue)"
    unfolding inner_for_def by (rule todo_foldl_inner)
  also have "\<dots> < todo (ls, queue)"
    using ne by (simp add: todo_def)
  finally show "((labs, eps, n, cid, inner_for labs eps n cid (last queue) (ls, butlast queue)),
                 (labs, eps, n, cid, s))
      \<in> measure (\<lambda>(labs, eps, n, cid, s). todo s)"
    by (simp add: s[symmetric])
qed

declare flood.simps [simp del]

definition outer_step ::
  "vec3 list \<Rightarrow> real \<Rightarrow> nat \<Rightarrow> int list \<times> nat \<Rightarrow> nat \<Rightarrow> int list \<times> nat" where
  "outer_step labs eps n s i =
     (case s of (ls, cid) \<Rightarrow>
        if \<not> unlabelled ls i then s
        else (flood labs eps n cid (ls[i := int cid], [i]), cid + 1))"

definition dbscan_labels :: "vec3 list \<Rightarrow> real \<Rightarrow> int list \<times> nat" where
  "dbscan_labels labs eps =
     (let n = length labs
      in foldl (outer_step labs eps n) (replicate n (-1), 0) [0..<n])"

definition sum3 :: "vec3 list \<Rightarrow> vec3" where
  "sum3 vs = (sum_list (map fst vs), sum_list (map (fst \<circ> snd) vs), sum_list (map (snd \<circ> snd) vs))"

definition div3 :: "vec3 \<Rightarrow> real \<Rightarrow> vec3" where
  "div3 v c = (case v of (x, y, z) \<Rightarrow> (x / c, y / c, z / c))"

definition make_cluster :: "vec3 list \<Rightarrow> vec3 list \<Rightarrow> int list \<Rightarrow> nat \<Rightarrow> cluster" where
  "make_cluster samplesBgr labs ls k =
     (let idxs = filter (\<lambda>i. ls ! i = int k) [0..<length samplesBgr];
          cnt = length idxs;
          cbgr = div3 (sum3 (map ((!) samplesBgr) idxs)) (real cnt);
          clab = div3 (sum3 (map ((!) labs) idxs)) (real cnt)
      in \<lparr>cluster_id = int k, count = cnt, center_bgr = cbgr, center_lab = clab,
          center_hex = (case cbgr of (cb, cg, cr) \<Rightarrow> bgrToHex cb cg cr)\<rparr>)"

definition clusterColorsDbscan ::
  "(vec3 \<Rightarrow> vec3) \<Rightarrow> vec3 list \<Rightarrow> real \<Rightarrow> int list \<times> clusterInfo" where
  "clusterColorsDbscan toLab samplesBgr eps =
     (if length samplesBgr = 0 then ([], [])
      else
        let labs = map toLab samplesBgr
        in case dbscan_labels labs eps of
             (ls, cid) \<Rightarrow>
               (ls, map (\<lambda>k. (int k, make_cluster samplesBgr labs ls k)) [0..<cid]))"

text \<open>
  Step 4 of \<^verbatim>\<open>buildResult\<close>: cluster, then merge. There \<^verbatim>\<open>capacity\<close> and
  \<^verbatim>\<open>dbscanEps\<close> are numbers.
\<close>

definition reconcile ::
  "(vec3 \<Rightarrow> vec3) \<Rightarrow> vec3 list \<Rightarrow> int \<Rightarrow> real \<Rightarrow> merge_result" where
  "reconcile toLab samplesBgr capacity dbscanEps =
     (case clusterColorsDbscan toLab samplesBgr dbscanEps of
        (rawLabels, clusterInfo0) \<Rightarrow>
          mergeClustersToExpectedCount rawLabels clusterInfo0 (Some capacity) (Some dbscanEps))"

subsection \<open>Evaluating distances\<close>

lemma sqrt_le_iff: "0 \<le> x \<Longrightarrow> sqrt x \<le> c \<longleftrightarrow> 0 \<le> c \<and> x \<le> c\<^sup>2"
proof
  assume x: "0 \<le> x" and le: "sqrt x \<le> c"
  have c: "0 \<le> c" using le real_sqrt_ge_zero[OF x] by linarith
  have "x = (sqrt x)\<^sup>2" using x by simp
  also have "\<dots> \<le> c\<^sup>2" using le x by (intro power_mono) simp_all
  finally show "0 \<le> c \<and> x \<le> c\<^sup>2" using c by simp
next
  assume "0 \<le> x" and "0 \<le> c \<and> x \<le> c\<^sup>2"
  then show "sqrt x \<le> c" by (simp add: real_le_lsqrt)
qed

lemma labDist3_le:
  "labDist3 (a0, a1, a2) (b0, b1, b2) \<le> c \<longleftrightarrow>
     0 \<le> c \<and> (a0 - b0)\<^sup>2 + (a1 - b1)\<^sup>2 + (a2 - b2)\<^sup>2 \<le> c\<^sup>2"
  by (simp add: labDist3_def Let_def sqrt_le_iff power2_eq_square)

lemma dist3_le:
  "dist3 (a0, a1, a2) (b0, b1, b2) \<le> c \<longleftrightarrow>
     0 \<le> c \<and> (a0 - b0)\<^sup>2 + (a1 - b1)\<^sup>2 + (a2 - b2)\<^sup>2 \<le> c\<^sup>2"
  by (simp add: dist3_def Let_def sqrt_le_iff power2_eq_square)


lemma labDist3_axis: "labDist3 (a0, a1, a2) (b0, a1, a2) = \<bar>a0 - b0\<bar>"
  by (simp add: labDist3_def)

lemma dist3_axis: "dist3 (a0, a1, a2) (b0, a1, a2) = \<bar>a0 - b0\<bar>"
  by (simp add: dist3_def)

section \<open>Properties of mergeClustersToExpectedCount\<close>

subsection \<open>The loop result\<close>

lemma merge_loop_nkeys:
  "merge_loop cap mx ex s = (ls', ci', ms') \<Longrightarrow> nkeys ci' \<le> nkeys (fst (snd s))"
proof (induction cap mx ex s rule: merge_loop.induct)
  case (1 cap mx ex s)
  show ?case
  proof (cases "merge_iter cap mx ex s")
    case None
    with "1.prems" show ?thesis
      by (simp add: merge_loop.simps[of cap mx ex s])
  next
    case (Some s1)
    with "1.prems" have "merge_loop cap mx ex s1 = (ls', ci', ms')"
      by (simp add: merge_loop.simps[of cap mx ex s])
    from "1.IH"[OF Some this] have "nkeys ci' \<le> nkeys (fst (snd s1))" .
    moreover have "nkeys (fst (snd s1)) < nkeys (fst (snd s))"
      using Some merge_iter_nkeys[of cap mx ex "fst s" "fst (snd s)" "snd (snd s)"
          "fst s1" "fst (snd s1)" "snd (snd s1)"]
      by simp
    ultimately show ?thesis by simp
  qed
qed

lemma merge_iter_None:
  "merge_iter cap mx ex (ls, ci, ms) = None \<longleftrightarrow>
     \<not> int (nkeys ci) > ex \<or> (\<forall>x y. \<not> eligible (map_of ci) cap mx x y)"
  by (auto simp: merge_iter_def find_best_None[symmetric] split: option.splits prod.splits)

lemma merge_loop_final:
  "merge_loop cap mx ex s = (ls', ci', ms') \<Longrightarrow>
     int (nkeys ci') \<le> ex \<or> (\<forall>x y. \<not> eligible (map_of ci') cap mx x y)"
proof (induction cap mx ex s rule: merge_loop.induct)
  case (1 cap mx ex s)
  show ?case
  proof (cases "merge_iter cap mx ex s")
    case None
    with "1.prems" have s: "s = (ls', ci', ms')"
      by (simp add: merge_loop.simps[of cap mx ex s])
    from None show ?thesis
      unfolding s merge_iter_None by (simp add: not_less)
  next
    case (Some s1)
    with "1.prems" have "merge_loop cap mx ex s1 = (ls', ci', ms')"
      by (simp add: merge_loop.simps[of cap mx ex s])
    from "1.IH"[OF Some this] show ?thesis .
  qed
qed

lemma merge_result_loop:
  assumes "0 < cap" "labelsIn \<noteq> []" "int (length labelsIn) mod cap = 0"
  shows "merge_loop cap (max 8 ((case eps of None \<Rightarrow> 16 | Some e \<Rightarrow> e) * (12 / 10)))
           (int (length labelsIn) div cap) (labelsIn, ci, [])
         = (labels (mergeClustersToExpectedCount labelsIn ci (Some cap) eps),
            clusterInfo (mergeClustersToExpectedCount labelsIn ci (Some cap) eps),
            merges (mergeClustersToExpectedCount labelsIn ci (Some cap) eps))"
    and "expectedColors (mergeClustersToExpectedCount labelsIn ci (Some cap) eps)
         = Some (int (length labelsIn) div cap)"
  using assms
  by (simp_all add: mergeClustersToExpectedCount_def Let_def split: prod.splits)


lemma merge_skip:
  assumes "\<not> (\<exists>c. capacity = Some c \<and> 0 < c \<and> labelsIn \<noteq> [] \<and> int (length labelsIn) mod c = 0)"
  shows "mergeClustersToExpectedCount labelsIn ci capacity eps =
           \<lparr>labels = labelsIn, clusterInfo = ci, merges = [], expectedColors = None\<rparr>"
proof (cases capacity)
  case None
  then show ?thesis by (simp add: mergeClustersToExpectedCount_def)
next
  case (Some c)
  show ?thesis
  proof (cases "0 < c")
    case False
    with Some show ?thesis by (simp add: mergeClustersToExpectedCount_def)
  next
    case True
    show ?thesis
    proof (cases "labelsIn = []")
      case e: True
      with Some True show ?thesis by (simp add: mergeClustersToExpectedCount_def)
    next
      case False
      with assms Some True have "int (length labelsIn) mod c \<noteq> 0" by simp
      with Some True False show ?thesis
        by (simp add: mergeClustersToExpectedCount_def Let_def)
    qed
  qed
qed

subsection \<open>Sample data for the closed instances\<close>

definition mk_cluster :: "int \<Rightarrow> nat \<Rightarrow> vec3 \<Rightarrow> cluster" where
  "mk_cluster i n c =
     \<lparr>cluster_id = i, count = n, center_bgr = c, center_lab = c,
      center_hex = (case c of (cb, cg, cr) \<Rightarrow> bgrToHex cb cg cr)\<rparr>"

text \<open>Two clusters of one sample each, Lab centroids 255 apart (black and white).\<close>

definition far_pair :: clusterInfo where
  "far_pair = [(0, mk_cluster 0 1 (0, 128, 128)), (1, mk_cluster 1 1 (255, 128, 128))]"

text \<open>Two clusters of one sample each, Lab centroids 4 apart.\<close>

definition near_pair :: clusterInfo where
  "near_pair = [(0, mk_cluster 0 1 (100, 128, 128)), (1, mk_cluster 1 1 (104, 128, 128))]"

text \<open>
  C6. When there are no samples, or the capacity is not a positive number, or the number
  of samples is not a multiple of the capacity, \<open>mergeClustersToExpectedCount\<close> returns
  the labels and the cluster map it was given, an empty merge list and no expected colour
  count. On an empty sample list clustering followed by merging returns an empty label
  list and an empty palette.
\<close>

theorem merge_skipped_unchanged:
  "(length labelsIn = 0 \<or> (\<forall>c. capacity = Some c \<longrightarrow> c \<le> 0) \<or>
      (\<exists>c. capacity = Some c \<and> int (length labelsIn) mod c \<noteq> 0) \<longrightarrow>
    mergeClustersToExpectedCount labelsIn ci capacity eps =
      \<lparr>labels = labelsIn, clusterInfo = ci, merges = [], expectedColors = None\<rparr>) \<and>
   clusterColorsDbscan toLab [] e = ([], []) \<and>
   reconcile toLab [] cap e =
      \<lparr>labels = [], clusterInfo = [], merges = [], expectedColors = None\<rparr>"
proof (intro conjI impI)
  assume "length labelsIn = 0 \<or> (\<forall>c. capacity = Some c \<longrightarrow> c \<le> 0) \<or>
      (\<exists>c. capacity = Some c \<and> int (length labelsIn) mod c \<noteq> 0)"
  then have "\<not> (\<exists>c. capacity = Some c \<and> 0 < c \<and> labelsIn \<noteq> [] \<and>
                    int (length labelsIn) mod c = 0)"
    by auto
  then show "mergeClustersToExpectedCount labelsIn ci capacity eps =
      \<lparr>labels = labelsIn, clusterInfo = ci, merges = [], expectedColors = None\<rparr>"
    by (rule merge_skip)
next
  show "clusterColorsDbscan toLab [] e = ([], [])"
    by (simp add: clusterColorsDbscan_def)
  then show "reconcile toLab [] cap e =
      \<lparr>labels = [], clusterInfo = [], merges = [], expectedColors = None\<rparr>"
    by (simp add: reconcile_def mergeClustersToExpectedCount_def Let_def)
qed

theorem merge_skipped_unchanged_witness:
  "int (length [0, 0, 1 :: int]) mod 2 \<noteq> 0 \<and>
   mergeClustersToExpectedCount [0, 0, 1] near_pair (Some 2) (Some 16) =
      \<lparr>labels = [0, 0, 1], clusterInfo = near_pair, merges = [], expectedColors = None\<rparr> \<and>
   mergeClustersToExpectedCount [0, 1] near_pair (Some 0) (Some 16) =
      \<lparr>labels = [0, 1], clusterInfo = near_pair, merges = [], expectedColors = None\<rparr> \<and>
   mergeClustersToExpectedCount [0, 1] near_pair None (Some 16) =
      \<lparr>labels = [0, 1], clusterInfo = near_pair, merges = [], expectedColors = None\<rparr> \<and>
   mergeClustersToExpectedCount [] [] (Some 4) (Some 16) =
      \<lparr>labels = [], clusterInfo = [], merges = [], expectedColors = None\<rparr>"
  using merge_skipped_unchanged[of "[0, 0, 1]" "Some 2" near_pair "Some 16"]
    merge_skipped_unchanged[of "[0, 1]" "Some 0" near_pair "Some 16"]
    merge_skipped_unchanged[of "[0, 1]" None near_pair "Some 16"]
    merge_skipped_unchanged[of "[]" "Some 4" "[]" "Some 16"]
  by simp


subsection \<open>The reconciliation loop against its description\<close>

text \<open>
  The description of the loop, in the words of the design. A state is the label list and
  the map of live clusters. While the number of live clusters exceeds \<open>expected\<close>, the
  pair of live clusters that is merged is an eligible pair (combined member count at most
  the capacity, centroid distance at most the ceiling) whose centroid distance is least
  among the eligible pairs; merging pools the members (the labels of the absorbed id
  become the surviving id, the counts add up), sets the centroid of the survivor to the
  mean of the two centroids weighted by the member counts, and drops the absorbed id. The
  run ends when the count is reached or when no eligible pair is left.
\<close>

definition weighted_mean :: "nat \<Rightarrow> vec3 \<Rightarrow> nat \<Rightarrow> vec3 \<Rightarrow> vec3" where
  "weighted_mean na a nb b =
     (case a of (a0, a1, a2) \<Rightarrow> case b of (b0, b1, b2) \<Rightarrow>
        ((real na * a0 + real nb * b0) / real (na + nb),
         (real na * a1 + real nb * b1) / real (na + nb),
         (real na * a2 + real nb * b2) / real (na + nb)))"

inductive reconciles ::
  "int \<Rightarrow> real \<Rightarrow> int \<Rightarrow> int list \<times> (int \<rightharpoonup> cluster) \<Rightarrow> merge_rec list
     \<Rightarrow> int list \<times> (int \<rightharpoonup> cluster) \<Rightarrow> bool"
  for cap :: int and ceiling :: real and expected :: int where
  reached:
    "\<not> int (card (dom m)) > expected \<Longrightarrow> reconciles cap ceiling expected (ls, m) [] (ls, m)"
| stuck:
    "int (card (dom m)) > expected \<Longrightarrow> \<forall>x y. \<not> eligible m cap ceiling x y \<Longrightarrow>
       reconciles cap ceiling expected (ls, m) [] (ls, m)"
| merge:
    "int (card (dom m)) > expected \<Longrightarrow>
     eligible m cap ceiling k dr \<Longrightarrow> k < dr \<Longrightarrow>
     \<forall>x y. eligible m cap ceiling x y \<longrightarrow> cdist m k dr \<le> cdist m x y \<Longrightarrow>
     m k = Some a \<Longrightarrow> m dr = Some b \<Longrightarrow>
     cluster_id a' = cluster_id a \<Longrightarrow>
     count a' = count a + count b \<Longrightarrow>
     center_lab a' = weighted_mean (count a) (center_lab a) (count b) (center_lab b) \<Longrightarrow>
     center_bgr a' = weighted_mean (count a) (center_bgr a) (count b) (center_bgr b) \<Longrightarrow>
     ls' = map (\<lambda>l. if l = dr then k else l) ls \<Longrightarrow>
     m' = (m(k \<mapsto> a'))(dr := None) \<Longrightarrow>
     reconciles cap ceiling expected (ls', m') ms s'' \<Longrightarrow>
     reconciles cap ceiling expected (ls, m)
       (\<lparr>m_keep = k, m_drop = dr, m_d = cdist m k dr\<rparr> # ms) s''"

lemma weighted_is_mean:
  "weighted (real na / (real na + real nb)) (real nb / (real na + real nb)) a b
     = weighted_mean na a nb b"
  by (cases a, cases b) (simp add: weighted_def weighted_mean_def add_divide_distrib mult.commute)

lemma merged_cluster_fields:
  "cluster_id (merged_cluster a b) = cluster_id a"
  "count (merged_cluster a b) = count a + count b"
  "center_lab (merged_cluster a b) = weighted_mean (count a) (center_lab a) (count b) (center_lab b)"
  "center_bgr (merged_cluster a b) = weighted_mean (count a) (center_bgr a) (count b) (center_bgr b)"
  by (simp_all add: merged_cluster_def Let_def weighted_is_mean)


subsection \<open>Evaluation of the sample data\<close>

lemma merged_mk:
  "merged_cluster (mk_cluster i na ca) (mk_cluster j nb cb)
     = mk_cluster i (na + nb) (weighted_mean na ca nb cb)"
  by (simp add: merged_cluster_def mk_cluster_def Let_def weighted_is_mean)

lemma center_lab_mk: "center_lab (mk_cluster i n c) = c" "count (mk_cluster i n c) = n"
  by (simp_all add: mk_cluster_def)

lemma near_pair_iter:
  "merge_iter 2 (96 / 5) 1 ([0, 1], near_pair, []) =
     Some ([0, 0], [(0, mk_cluster 0 2 (102, 128, 128))], [\<lparr>m_keep = 0, m_drop = 1, m_d = 4\<rparr>])"
proof -
  have fb: "find_best near_pair 2 (96 / 5) = Some \<lparr>m_keep = 0, m_drop = 1, m_d = 4\<rparr>"
    by (simp add: find_best_def keys_sorted_def best_step_def near_pair_def center_lab_mk
        Let_def labDist3_axis)
  have mg: "mergeInto 0 1 ([0, 1], near_pair) = ([0, 0], [(0, mk_cluster 0 2 (102, 128, 128))])"
    by (simp add: mergeInto_def near_pair_def merged_mk weighted_mean_def numeral_2_eq_2)
  show ?thesis
    by (simp add: merge_iter_def fb mg) (simp add: nkeys_def near_pair_def)
qed

lemma near_pair_merged:
  "mergeClustersToExpectedCount [0, 1] near_pair (Some 2) (Some 16) =
     \<lparr>labels = [0, 0], clusterInfo = [(0, mk_cluster 0 2 (102, 128, 128))],
      merges = [\<lparr>m_keep = 0, m_drop = 1, m_d = 4\<rparr>], expectedColors = Some 1\<rparr>"
proof -
  have it2: "merge_iter 2 (96 / 5) 1
      ([0, 0], [(0, mk_cluster 0 2 (102, 128, 128))], [\<lparr>m_keep = 0, m_drop = 1, m_d = 4\<rparr>]) = None"
    by (simp add: merge_iter_def nkeys_def)
  have "merge_loop 2 (96 / 5) 1 ([0, 1], near_pair, []) =
     ([0, 0], [(0, mk_cluster 0 2 (102, 128, 128))], [\<lparr>m_keep = 0, m_drop = 1, m_d = 4\<rparr>])"
    by (subst merge_loop.simps, simp only: near_pair_iter option.case,
        subst merge_loop.simps, simp only: it2 option.case)
  then show ?thesis
    by (simp add: mergeClustersToExpectedCount_def)
qed

lemma far_pair_unmerged:
  "mergeClustersToExpectedCount [0, 1] far_pair (Some 2) (Some 16) =
     \<lparr>labels = [0, 1], clusterInfo = far_pair, merges = [], expectedColors = Some 1\<rparr>"
proof -
  have fb: "find_best far_pair 2 (96 / 5) = None"
    by (simp add: find_best_def keys_sorted_def best_step_def far_pair_def center_lab_mk
        Let_def labDist3_axis)
  have it: "merge_iter 2 (96 / 5) 1 ([0, 1], far_pair, []) = None"
    by (simp add: merge_iter_def fb)
  have "merge_loop 2 (96 / 5) 1 ([0, 1], far_pair, []) = ([0, 1], far_pair, [])"
    by (subst merge_loop.simps, simp only: it option.case)
  then show ?thesis
    by (simp add: mergeClustersToExpectedCount_def)
qed




text \<open>
  C2, as the code has it. When the number of samples is a positive multiple of the
  capacity, the number of clusters left by \<open>mergeClustersToExpectedCount\<close> is at most
  the number it was given, and it exceeds \<open>total / capacity\<close> only when no eligible
  pair is left (the loop is left by \<^verbatim>\<open>if (!best) break;\<close>). Every pass of the loop that
  merges joins two live clusters whose member counts sum to at most the capacity.
\<close>

theorem merge_count_bounded:
  assumes "0 < cap" and "labelsIn \<noteq> []" and "int (length labelsIn) mod cap = 0"
  shows "nkeys (clusterInfo (mergeClustersToExpectedCount labelsIn ci (Some cap) (Some eps)))
           \<le> nkeys ci \<and>
         (int (nkeys (clusterInfo (mergeClustersToExpectedCount labelsIn ci (Some cap) (Some eps))))
            \<le> int (length labelsIn) div cap \<or>
          (\<forall>x y. \<not> eligible
             (map_of (clusterInfo (mergeClustersToExpectedCount labelsIn ci (Some cap) (Some eps))))
             cap (max 8 (eps * (12 / 10))) x y)) \<and>
         (\<forall>mx ex ls1 ci1 ms1 ls2 ci2 ms2.
            merge_iter cap mx ex (ls1, ci1, ms1) = Some (ls2, ci2, ms2) \<longrightarrow>
            (\<exists>b a c. ms2 = ms1 @ [b] \<and> m_keep b \<noteq> m_drop b \<and>
               map_of ci1 (m_keep b) = Some a \<and> map_of ci1 (m_drop b) = Some c \<and>
               int (count a + count c) \<le> cap \<and>
               map_of ci2 = ((map_of ci1)(m_keep b \<mapsto> merged_cluster a c))(m_drop b := None)))"
proof (intro conjI allI impI)
  let ?r = "mergeClustersToExpectedCount labelsIn ci (Some cap) (Some eps)"
  note loop = merge_result_loop(1)[OF assms, of "Some eps" ci]
  from merge_loop_nkeys[OF loop] show "nkeys (clusterInfo ?r) \<le> nkeys ci"
    by simp
  from merge_loop_final[OF loop]
  show "int (nkeys (clusterInfo ?r)) \<le> int (length labelsIn) div cap \<or>
        (\<forall>x y. \<not> eligible (map_of (clusterInfo ?r)) cap (max 8 (eps * (12 / 10))) x y)"
    by simp
next
  fix mx ex ls1 ci1 ms1 ls2 ci2 ms2
  assume "merge_iter cap mx ex (ls1, ci1, ms1) = Some (ls2, ci2, ms2)"
  then obtain b a c where b: "find_best ci1 cap mx = Some b"
    and ac: "map_of ci1 (m_keep b) = Some a" "map_of ci1 (m_drop b) = Some c"
    and ci2: "ci2 = AList.delete (m_drop b) (AList.update (m_keep b) (merged_cluster a c) ci1)"
    and ms2: "ms2 = ms1 @ [b]"
    by (rule merge_iter_Some)
  from find_best_Some(2)[OF b] ac have "int (count a + count c) \<le> cap"
    by (auto simp: eligible_def mergeable_def)
  moreover from find_best_Some(1)[OF b] have "m_keep b \<noteq> m_drop b" by simp
  moreover have "map_of ci2 = ((map_of ci1)(m_keep b \<mapsto> merged_cluster a c))(m_drop b := None)"
    by (simp add: ci2 map_of_merged)
  ultimately show "\<exists>b a c. ms2 = ms1 @ [b] \<and> m_keep b \<noteq> m_drop b \<and>
               map_of ci1 (m_keep b) = Some a \<and> map_of ci1 (m_drop b) = Some c \<and>
               int (count a + count c) \<le> cap \<and>
               map_of ci2 = ((map_of ci1)(m_keep b \<mapsto> merged_cluster a c))(m_drop b := None)"
    using ac ms2 by blast
qed

theorem merge_count_bounded_witness:
  "(0::int) < 2 \<and> [0, 1 :: int] \<noteq> [] \<and> int (length [0, 1 :: int]) mod 2 = 0 \<and>
   nkeys [(0, mk_cluster 0 2 (102, 128, 128))] \<le> nkeys near_pair \<and>
   int (nkeys [(0, mk_cluster 0 2 (102, 128, 128))]) \<le> int (length [0, 1 :: int]) div 2"
proof -
  have "int (nkeys [(0, mk_cluster 0 2 (102, 128, 128))]) \<le> int (length [0, 1 :: int]) div 2"
    by (simp add: nkeys_def)
  with merge_count_bounded[of 2 "[0, 1]" near_pair 16] show ?thesis
    by (simp add: near_pair_merged)
qed

text \<open>
  The claim as stated fails: for two samples whose clusters are 255 apart and capacity 2
  the expected count is 1, no pair is eligible, and two clusters remain.
\<close>

theorem final_count_exceeds_expected:
  "int (length [0, 1 :: int]) mod 2 = 0 \<and>
   int (nkeys (clusterInfo (mergeClustersToExpectedCount [0, 1] far_pair (Some 2) (Some 16))))
     > int (length [0, 1 :: int]) div 2"
  by (simp add: far_pair_unmerged) (simp add: nkeys_def far_pair_def)

section \<open>Properties of clusterColorsDbscan\<close>

subsection \<open>Single-link connectivity\<close>

text \<open>
  Two sample indices are near when their Lab colours are at most \<open>eps\<close> apart; they are
  linked when a chain of near samples leads from one to the other.
\<close>

definition near :: "vec3 list \<Rightarrow> real \<Rightarrow> nat \<Rightarrow> nat \<Rightarrow> bool" where
  "near labs eps i j = (i < length labs \<and> j < length labs \<and> dist3 (labs ! i) (labs ! j) \<le> eps)"

definition linked :: "vec3 list \<Rightarrow> real \<Rightarrow> nat \<Rightarrow> nat \<Rightarrow> bool" where
  "linked labs eps = (near labs eps)\<^sup>*\<^sup>*"

lemma dist3_sym: "dist3 a b = dist3 b a"
  by (cases a, cases b) (simp add: dist3_def Let_def power2_commute[symmetric] algebra_simps)

lemma near_sym: "near labs eps i j \<Longrightarrow> near labs eps j i"
  by (simp add: near_def dist3_sym)

lemma linked_refl: "linked labs eps i i"
  by (simp add: linked_def)

lemma linked_trans: "linked labs eps i j \<Longrightarrow> linked labs eps j k \<Longrightarrow> linked labs eps i k"
  by (simp add: linked_def)

lemma linked_near: "near labs eps i j \<Longrightarrow> linked labs eps i j"
  by (simp add: linked_def)

lemma linked_sym: "linked labs eps i j \<Longrightarrow> linked labs eps j i"
  unfolding linked_def
proof (induction rule: rtranclp_induct)
  case base
  then show ?case by simp
next
  case (step y z)
  from step.hyps(2) have "near labs eps z y" by (rule near_sym)
  then show ?case using step.IH by (rule converse_rtranclp_into_rtranclp)
qed

subsection \<open>Invariants of the flood fill\<close>

text \<open>
  \<open>classes_ok\<close>: the labels handed out so far lie below \<open>hi\<close>, samples with the same label
  are linked, the first \<open>i\<close> samples are labelled, and every label below \<open>hi\<close> is in use.
\<close>

definition classes_ok :: "vec3 list \<Rightarrow> real \<Rightarrow> nat \<Rightarrow> nat \<Rightarrow> int list \<Rightarrow> bool" where
  "classes_ok labs eps i hi ls \<longleftrightarrow>
     length ls = length labs \<and>
     (\<forall>j<length labs. ls ! j = -1 \<or> (0 \<le> ls ! j \<and> ls ! j < int hi)) \<and>
     (\<forall>j<length labs. \<forall>k<length labs. ls ! j \<noteq> -1 \<longrightarrow> ls ! j = ls ! k \<longrightarrow> linked labs eps j k) \<and>
     (\<forall>j<i. j < length labs \<longrightarrow> ls ! j \<noteq> -1) \<and>
     (\<forall>c<hi. \<exists>j<length labs. ls ! j = int c)"

text \<open>\<open>closed_at\<close>: every sample near a sample \<open>j\<close> carries the label of \<open>j\<close>.\<close>

definition closed_at :: "vec3 list \<Rightarrow> real \<Rightarrow> int list \<Rightarrow> nat \<Rightarrow> bool" where
  "closed_at labs eps ls j \<longleftrightarrow> (\<forall>k. near labs eps j k \<longrightarrow> ls ! k = ls ! j)"

definition inv_done :: "vec3 list \<Rightarrow> real \<Rightarrow> nat \<Rightarrow> int list \<times> nat \<Rightarrow> bool" where
  "inv_done labs eps i s \<longleftrightarrow>
     (case s of (ls, cid) \<Rightarrow>
        classes_ok labs eps i cid ls \<and>
        (\<forall>j<length labs. ls ! j \<noteq> -1 \<longrightarrow> closed_at labs eps ls j))"

definition inv_flood :: "vec3 list \<Rightarrow> real \<Rightarrow> nat \<Rightarrow> nat \<Rightarrow> int list \<times> nat list \<Rightarrow> bool" where
  "inv_flood labs eps i cid s \<longleftrightarrow>
     (case s of (ls, queue) \<Rightarrow>
        classes_ok labs eps i (Suc cid) ls \<and>
        (\<forall>j<length labs. ls ! j \<noteq> -1 \<longrightarrow> j \<notin> set queue \<longrightarrow> closed_at labs eps ls j) \<and>
        (\<forall>j\<in>set queue. j < length labs \<and> ls ! j = int cid))"

text \<open>While the neighbours of \<open>p\<close> are scanned, those below \<open>m\<close> are done.\<close>

definition inv_inner ::
  "vec3 list \<Rightarrow> real \<Rightarrow> nat \<Rightarrow> nat \<Rightarrow> nat \<Rightarrow> nat \<Rightarrow> int list \<times> nat list \<Rightarrow> bool" where
  "inv_inner labs eps i cid p m s \<longleftrightarrow>
     (case s of (ls, queue) \<Rightarrow>
        classes_ok labs eps i (Suc cid) ls \<and>
        (\<forall>j<length labs. ls ! j \<noteq> -1 \<longrightarrow> j \<notin> set queue \<longrightarrow> j \<noteq> p \<longrightarrow> closed_at labs eps ls j) \<and>
        (\<forall>j\<in>set queue. j < length labs \<and> ls ! j = int cid) \<and>
        p < length labs \<and> ls ! p = int cid \<and>
        (\<forall>k<m. near labs eps p k \<longrightarrow> ls ! k = int cid))"

lemma near_lt: "near labs eps j k \<Longrightarrow> j < length labs \<and> k < length labs"
  by (simp add: near_def)

lemma classes_ok_update:
  assumes ok: "classes_ok labs eps i hi ls"
    and m: "m < length labs" "ls ! m = -1"
    and c: "c \<le> hi"
    and link: "\<And>k. k < length labs \<Longrightarrow> ls ! k = int c \<Longrightarrow> linked labs eps m k"
  shows "classes_ok labs eps i (max hi (Suc c)) (ls[m := int c])"
proof -
  let ?n = "length labs" and ?ls = "ls[m := int c]"
  from ok have len: "length ls = ?n"
    and rng: "\<forall>j<?n. ls ! j = -1 \<or> (0 \<le> ls ! j \<and> ls ! j < int hi)"
    and con: "\<forall>j<?n. \<forall>k<?n. ls ! j \<noteq> -1 \<longrightarrow> ls ! j = ls ! k \<longrightarrow> linked labs eps j k"
    and pre: "\<forall>j<i. j < ?n \<longrightarrow> ls ! j \<noteq> -1"
    and use: "\<forall>c<hi. \<exists>j<?n. ls ! j = int c"
    by (simp_all add: classes_ok_def)
  have nth: "\<And>j. j < ?n \<Longrightarrow> ?ls ! j = (if j = m then int c else ls ! j)"
    using len by (simp add: nth_list_update)
  have 1: "length ?ls = ?n" using len by simp
  have 2: "\<forall>j<?n. ?ls ! j = -1 \<or> (0 \<le> ?ls ! j \<and> ?ls ! j < int (max hi (Suc c)))"
    using rng c by (auto simp: nth)
  have 3: "\<forall>j<?n. \<forall>k<?n. ?ls ! j \<noteq> -1 \<longrightarrow> ?ls ! j = ?ls ! k \<longrightarrow> linked labs eps j k"
  proof (intro allI impI)
    fix j k
    assume j: "j < ?n" and k: "k < ?n" and l: "?ls ! j \<noteq> -1" and e: "?ls ! j = ?ls ! k"
    show "linked labs eps j k"
    proof (cases "j = m")
      case True
      show ?thesis
      proof (cases "k = m")
        case True
        with \<open>j = m\<close> show ?thesis by (simp add: linked_refl)
      next
        case False
        with e True j k have "ls ! k = int c" by (simp add: nth)
        from link[OF k this] True show ?thesis by simp
      qed
    next
      case False
      show ?thesis
      proof (cases "k = m")
        case True
        with e False j k have "ls ! j = int c" by (simp add: nth)
        from link[OF j this] True show ?thesis by (simp add: linked_sym)
      next
        case km: False
        with False e l j k con show ?thesis by (simp add: nth)
      qed
    qed
  qed
  have 4: "\<forall>j<i. j < ?n \<longrightarrow> ?ls ! j \<noteq> -1"
    using pre by (simp add: nth)
  have 5: "\<forall>c'<max hi (Suc c). \<exists>j<?n. ?ls ! j = int c'"
  proof (intro allI impI)
    fix c' assume c': "c' < max hi (Suc c)"
    show "\<exists>j<?n. ?ls ! j = int c'"
    proof (cases "c' < hi")
      case True
      with use obtain j where j: "j < ?n" "ls ! j = int c'" by blast
      with m have "j \<noteq> m" by auto
      with j have "?ls ! j = int c'" by (simp add: nth)
      with j show ?thesis by blast
    next
      case False
      with c' c have "c' = c" by simp
      with m show ?thesis by (auto simp: nth)
    qed
  qed
  from 1 2 3 4 5 show ?thesis by (simp add: classes_ok_def)
qed

lemma inv_inner_step:
  assumes inv: "inv_inner labs eps i cid p m s" and m: "m < length labs"
  shows "inv_inner labs eps i cid p (Suc m) (inner_step labs eps cid p s m)"
proof -
  obtain ls q where s: "s = (ls, q)" by (cases s)
  let ?n = "length labs"
  from inv have ok: "classes_ok labs eps i (Suc cid) ls"
    and cl: "\<forall>j<?n. ls ! j \<noteq> -1 \<longrightarrow> j \<notin> set q \<longrightarrow> j \<noteq> p \<longrightarrow> closed_at labs eps ls j"
    and qu: "\<forall>j\<in>set q. j < ?n \<and> ls ! j = int cid"
    and p: "p < ?n" "ls ! p = int cid"
    and pr: "\<forall>k<m. near labs eps p k \<longrightarrow> ls ! k = int cid"
    by (simp_all add: inv_inner_def s)
  from ok have len: "length ls = ?n"
    and con: "\<forall>j<?n. \<forall>k<?n. ls ! j \<noteq> -1 \<longrightarrow> ls ! j = ls ! k \<longrightarrow> linked labs eps j k"
    by (simp_all add: classes_ok_def)
  show ?thesis
  proof (cases "unlabelled ls m")
    case False
    with m len have lm: "ls ! m \<noteq> -1" by (simp add: unlabelled_def)
    have "near labs eps p m \<longrightarrow> ls ! m = int cid"
    proof
      assume nr: "near labs eps p m"
      show "ls ! m = int cid"
      proof (cases "m \<in> set q \<or> m = p")
        case True
        with qu p show ?thesis by auto
      next
        case False
        with cl m lm have "closed_at labs eps ls m" by blast
        with near_sym[OF nr] have "ls ! p = ls ! m" by (simp add: closed_at_def)
        with p show ?thesis by simp
      qed
    qed
    with pr have "\<forall>k<Suc m. near labs eps p k \<longrightarrow> ls ! k = int cid"
      by (auto simp: less_Suc_eq)
    with ok cl qu p False show ?thesis
      by (simp add: inv_inner_def s inner_step_def)
  next
    case True
    then have lm: "ls ! m = -1" by (simp add: unlabelled_def)
    show ?thesis
    proof (cases "dist3 (labs ! p) (labs ! m) \<le> eps")
      case False
      then have "\<not> near labs eps p m" by (simp add: near_def)
      with pr have "\<forall>k<Suc m. near labs eps p k \<longrightarrow> ls ! k = int cid"
        by (auto simp: less_Suc_eq)
      with ok cl qu p True False show ?thesis
        by (simp add: inv_inner_def s inner_step_def)
    next
      case d: True
      with p m have nr: "near labs eps p m" by (simp add: near_def)
      let ?ls = "ls[m := int cid]"
      have nth: "\<And>j. j < ?n \<Longrightarrow> ?ls ! j = (if j = m then int cid else ls ! j)"
        using len by (simp add: nth_list_update)
      have pm: "p \<noteq> m" using p lm by auto
      have "classes_ok labs eps i (max (Suc cid) (Suc cid)) ?ls"
      proof (rule classes_ok_update[OF ok m lm])
        show "cid \<le> Suc cid" by simp
      next
        fix k assume k: "k < ?n" "ls ! k = int cid"
        with con p have "linked labs eps p k" by simp
        moreover have "linked labs eps m p" using nr by (simp add: linked_near near_sym)
        ultimately show "linked labs eps m k" using linked_trans by blast
      qed
      then have ok': "classes_ok labs eps i (Suc cid) ?ls" by simp
      have cl': "\<forall>j<?n. ?ls ! j \<noteq> -1 \<longrightarrow> j \<notin> set (q @ [m]) \<longrightarrow> j \<noteq> p \<longrightarrow> closed_at labs eps ?ls j"
      proof (intro allI impI)
        fix j
        assume j: "j < ?n" "?ls ! j \<noteq> -1" "j \<notin> set (q @ [m])" "j \<noteq> p"
        then have jm: "j \<noteq> m" by simp
        with j have lj: "ls ! j \<noteq> -1" by (simp add: nth)
        with cl j have c: "closed_at labs eps ls j" by simp
        show "closed_at labs eps ?ls j"
          unfolding closed_at_def
        proof (intro allI impI)
          fix k assume nk: "near labs eps j k"
          with c have e: "ls ! k = ls ! j" by (simp add: closed_at_def)
          with lj lm have "k \<noteq> m" by auto
          with e jm j near_lt[OF nk] show "?ls ! k = ?ls ! j" by (simp add: nth)
        qed
      qed
      have qu': "\<forall>j\<in>set (q @ [m]). j < ?n \<and> ?ls ! j = int cid"
        using qu m by (auto simp: nth)
      have p': "?ls ! p = int cid" using p pm by (simp add: nth)
      have pr': "\<forall>k<Suc m. near labs eps p k \<longrightarrow> ?ls ! k = int cid"
      proof (intro allI impI)
        fix k assume k: "k < Suc m" and nk: "near labs eps p k"
        show "?ls ! k = int cid"
        proof (cases "k = m")
          case True
          with m show ?thesis by (simp add: nth)
        next
          case False
          with k pr nk have "ls ! k = int cid" by simp
          with False near_lt[OF nk] show ?thesis by (simp add: nth)
        qed
      qed
      from ok' cl' qu' p(1) p' pr' True d show ?thesis
        by (simp add: inv_inner_def s inner_step_def)
    qed
  qed
qed

lemma inv_inner_for:
  assumes "inv_inner labs eps i cid p 0 s"
  shows "inv_inner labs eps i cid p (length labs) (inner_for labs eps (length labs) cid p s)"
proof -
  have "m \<le> length labs \<Longrightarrow>
        inv_inner labs eps i cid p m (foldl (inner_step labs eps cid p) s [0..<m])" for m
  proof (induction m)
    case 0
    with assms show ?case by simp
  next
    case (Suc m)
    then have "inv_inner labs eps i cid p m (foldl (inner_step labs eps cid p) s [0..<m])"
      and "m < length labs"
      by simp_all
    from inv_inner_step[OF this] show ?case by simp
  qed
  then show ?thesis by (simp add: inner_for_def)
qed

lemma inv_flood_pop:
  assumes inv: "inv_flood labs eps i cid (ls, queue)" and ne: "queue \<noteq> []"
  shows "inv_inner labs eps i cid (last queue) 0 (ls, butlast queue)"
proof -
  from ne have l: "last queue \<in> set queue" by simp
  have sub: "set (butlast queue) \<subseteq> set queue"
    by (auto dest: in_set_butlastD)
  have "\<And>j. j \<notin> set (butlast queue) \<Longrightarrow> j \<noteq> last queue \<Longrightarrow> j \<notin> set queue"
    using ne by (metis append_butlast_last_id in_set_conv_decomp_last rotate1.simps(2) set_ConsD set_rotate1)
  with inv l sub show ?thesis
    by (auto simp: inv_flood_def inv_inner_def)
qed

lemma inv_inner_done:
  assumes "inv_inner labs eps i cid p (length labs) s"
  shows "inv_flood labs eps i cid s"
proof -
  obtain ls q where s: "s = (ls, q)" by (cases s)
  from assms have p: "p < length labs" "ls ! p = int cid"
    and pr: "\<forall>k<length labs. near labs eps p k \<longrightarrow> ls ! k = int cid"
    by (simp_all add: inv_inner_def s)
  have "closed_at labs eps ls p"
    unfolding closed_at_def using pr p near_lt by auto
  with assms show ?thesis
    by (auto simp: inv_inner_def inv_flood_def s)
qed

lemma inv_flood_result:
  "inv_flood labs eps i cid s \<Longrightarrow>
     inv_done labs eps i (flood labs eps (length labs) cid s, Suc cid)"
proof (induction labs eps "length labs" cid s rule: flood.induct)
  case (1 labs eps cid s)
  obtain ls queue where s: "s = (ls, queue)" by (cases s)
  show ?case
  proof (cases "queue = []")
    case True
    with "1.prems" show ?thesis
      by (subst flood.simps) (simp add: s inv_flood_def inv_done_def)
  next
    case False
    let ?s1 = "inner_for labs eps (length labs) cid (last queue) (ls, butlast queue)"
    from "1.prems" have "inv_inner labs eps i cid (last queue) 0 (ls, butlast queue)"
      unfolding s using False by (rule inv_flood_pop)
    then have "inv_inner labs eps i cid (last queue) (length labs) ?s1"
      by (rule inv_inner_for)
    then have "inv_flood labs eps i cid ?s1"
      by (rule inv_inner_done)
    from "1.hyps"[OF s[symmetric] False this]
    have "inv_done labs eps i (flood labs eps (length labs) cid ?s1, Suc cid)" .
    then show ?thesis
      using False by (subst flood.simps) (simp add: s)
  qed
qed


lemma inv_outer_step:
  assumes inv: "inv_done labs eps i s" and i: "i < length labs"
  shows "inv_done labs eps (Suc i) (outer_step labs eps (length labs) s i)"
proof -
  obtain ls cid where s: "s = (ls, cid)" by (cases s)
  let ?n = "length labs"
  from inv have ok: "classes_ok labs eps i cid ls"
    and cl: "\<forall>j<?n. ls ! j \<noteq> -1 \<longrightarrow> closed_at labs eps ls j"
    by (simp_all add: inv_done_def s)
  from ok have len: "length ls = ?n"
    and rng: "\<forall>j<?n. ls ! j = -1 \<or> (0 \<le> ls ! j \<and> ls ! j < int cid)"
    by (simp_all add: classes_ok_def)
  show ?thesis
  proof (cases "unlabelled ls i")
    case False
    with i len have "ls ! i \<noteq> -1" by (simp add: unlabelled_def)
    with ok have "classes_ok labs eps (Suc i) cid ls"
      by (auto simp: classes_ok_def less_Suc_eq)
    with cl False show ?thesis
      by (simp add: inv_done_def s outer_step_def)
  next
    case True
    then have li: "ls ! i = -1" by (simp add: unlabelled_def)
    let ?ls = "ls[i := int cid]"
    have nth: "\<And>j. j < ?n \<Longrightarrow> ?ls ! j = (if j = i then int cid else ls ! j)"
      using len by (simp add: nth_list_update)
    have "classes_ok labs eps i (max cid (Suc cid)) ?ls"
    proof (rule classes_ok_update[OF ok i li])
      show "cid \<le> cid" by simp
    next
      fix k assume "k < ?n" "ls ! k = int cid"
      with rng show "linked labs eps i k" by fastforce
    qed
    then have "classes_ok labs eps (Suc i) (Suc cid) ?ls"
      using i by (auto simp: classes_ok_def less_Suc_eq)
    moreover have "\<forall>j<?n. ?ls ! j \<noteq> -1 \<longrightarrow> j \<notin> set [i] \<longrightarrow> closed_at labs eps ?ls j"
    proof (intro allI impI)
      fix j assume j: "j < ?n" "?ls ! j \<noteq> -1" "j \<notin> set [i]"
      then have lj: "ls ! j \<noteq> -1" by (simp add: nth)
      with cl j have c: "closed_at labs eps ls j" by simp
      show "closed_at labs eps ?ls j"
        unfolding closed_at_def
      proof (intro allI impI)
        fix k assume nk: "near labs eps j k"
        with c have e: "ls ! k = ls ! j" by (simp add: closed_at_def)
        with lj li have "k \<noteq> i" by auto
        with e j near_lt[OF nk] show "?ls ! k = ?ls ! j" by (simp add: nth)
      qed
    qed
    moreover have "\<forall>j\<in>set [i]. j < ?n \<and> ?ls ! j = int cid"
      using i by (simp add: nth)
    ultimately have "inv_flood labs eps (Suc i) cid (?ls, [i])"
      by (simp add: inv_flood_def)
    from inv_flood_result[OF this] True show ?thesis
      by (simp add: s outer_step_def)
  qed
qed

lemma inv_dbscan_labels: "inv_done labs eps (length labs) (dbscan_labels labs eps)"
proof -
  let ?n = "length labs"
  have init: "inv_done labs eps 0 (replicate ?n (-1), 0)"
    by (simp add: inv_done_def classes_ok_def)
  have "m \<le> ?n \<Longrightarrow>
        inv_done labs eps m (foldl (outer_step labs eps ?n) (replicate ?n (-1), 0) [0..<m])" for m
  proof (induction m)
    case 0
    with init show ?case by simp
  next
    case (Suc m)
    then have "inv_done labs eps m (foldl (outer_step labs eps ?n) (replicate ?n (-1), 0) [0..<m])"
      and "m < ?n"
      by simp_all
    from inv_outer_step[OF this] show ?case by simp
  qed
  then show ?thesis by (simp add: dbscan_labels_def Let_def)
qed

text \<open>What the invariant gives once every sample is labelled.\<close>

lemma dbscan_labels_facts:
  assumes "dbscan_labels labs eps = (ls, cid)"
  shows "length ls = length labs"
    and "\<And>j. j < length labs \<Longrightarrow> 0 \<le> ls ! j \<and> ls ! j < int cid"
    and "\<And>c. c < cid \<Longrightarrow> \<exists>j<length labs. ls ! j = int c"
    and "\<And>j k. j < length labs \<Longrightarrow> k < length labs \<Longrightarrow>
           ls ! j = ls ! k \<longleftrightarrow> linked labs eps j k"
proof -
  let ?n = "length labs"
  from inv_dbscan_labels[of labs eps] assms
  have ok: "classes_ok labs eps ?n cid ls"
    and cl: "\<forall>j<?n. ls ! j \<noteq> -1 \<longrightarrow> closed_at labs eps ls j"
    by (simp_all add: inv_done_def)
  from ok show len: "length ls = ?n" by (simp add: classes_ok_def)
  from ok have lab: "\<And>j. j < ?n \<Longrightarrow> ls ! j \<noteq> -1" by (simp add: classes_ok_def)
  from ok lab show "\<And>j. j < ?n \<Longrightarrow> 0 \<le> ls ! j \<and> ls ! j < int cid"
    by (auto simp: classes_ok_def)
  from ok show "\<And>c. c < cid \<Longrightarrow> \<exists>j<?n. ls ! j = int c" by (simp add: classes_ok_def)
  fix j k assume j: "j < ?n" and k: "k < ?n"
  show "ls ! j = ls ! k \<longleftrightarrow> linked labs eps j k"
  proof
    assume "ls ! j = ls ! k"
    with ok lab[OF j] j k show "linked labs eps j k" by (simp add: classes_ok_def)
  next
    assume "linked labs eps j k"
    then have "(near labs eps)\<^sup>*\<^sup>* j k" by (simp add: linked_def)
    then show "ls ! j = ls ! k"
    proof (induction rule: rtranclp_induct)
      case base
      show ?case by simp
    next
      case (step y z)
      from step.hyps(2) have y: "y < ?n" by (simp add: near_def)
      with cl lab have "closed_at labs eps ls y" by simp
      with step.hyps(2) have "ls ! z = ls ! y" by (simp add: closed_at_def)
      with step.IH show ?case by simp
    qed
  qed
qed


subsection \<open>The cluster map\<close>

definition members :: "int list \<Rightarrow> int \<Rightarrow> nat set" where
  "members ls k = {i. i < length ls \<and> ls ! i = k}"

text \<open>The mean of the colours \<open>vs ! i\<close> over the indices \<open>i\<close> in \<open>M\<close>.\<close>

definition mean3 :: "nat set \<Rightarrow> vec3 list \<Rightarrow> vec3" where
  "mean3 M vs =
     ((\<Sum>i\<in>M. fst (vs ! i)) / real (card M),
      (\<Sum>i\<in>M. fst (snd (vs ! i))) / real (card M),
      (\<Sum>i\<in>M. snd (snd (vs ! i))) / real (card M))"

lemma map_of_upt_keys:
  "map_of (map (\<lambda>k. (int k, f k)) [0..<c]) x =
     (if 0 \<le> x \<and> x < int c then Some (f (nat x)) else None)"
proof (induction c)
  case 0
  then show ?case by simp
next
  case (Suc c)
  show ?case
    by (auto simp: map_of_append map_add_def Suc.IH split: option.splits)
qed

lemma filter_idx_members:
  "length ls = n \<Longrightarrow> set (filter (\<lambda>i. ls ! i = k) [0..<n]) = members ls k"
  by (auto simp: members_def)

lemma make_cluster_facts:
  assumes "length ls = length samplesBgr"
  shows "count (make_cluster samplesBgr labs ls k) = card (members ls (int k))"
    and "count (make_cluster samplesBgr labs ls k) = count_list ls (int k)"
    and "center_lab (make_cluster samplesBgr labs ls k) = mean3 (members ls (int k)) labs"
    and "center_bgr (make_cluster samplesBgr labs ls k) = mean3 (members ls (int k)) samplesBgr"
    and "cluster_id (make_cluster samplesBgr labs ls k) = int k"
proof -
  let ?idxs = "filter (\<lambda>i. ls ! i = int k) [0..<length samplesBgr]"
  have d: "distinct ?idxs" by simp
  have st: "set ?idxs = members ls (int k)"
    using assms by (rule filter_idx_members)
  have len: "length ?idxs = card (members ls (int k))"
    using distinct_card[OF d] st by simp
  have sm: "sum_list (map (f \<circ> (!) vs) ?idxs) = (\<Sum>i\<in>members ls (int k). f (vs ! i))"
    for f :: "vec3 \<Rightarrow> real" and vs
    using sum_list_distinct_conv_sum_set[OF d, of "f \<circ> (!) vs"] st by simp
  show "count (make_cluster samplesBgr labs ls k) = card (members ls (int k))"
    by (simp add: make_cluster_def Let_def len)
  have "length ?idxs = length (filter (\<lambda>x. x = int k) (map ((!) ls) [0..<length ls]))"
    by (simp add: filter_map comp_def assms)
  also have "\<dots> = length (filter ((=) (int k)) ls)"
    by (simp add: map_nth eq_commute[of _ "int k"])
  also have "\<dots> = count_list ls (int k)"
    by (simp add: count_list_eq_length_filter)
  finally show "count (make_cluster samplesBgr labs ls k) = count_list ls (int k)"
    by (simp add: make_cluster_def Let_def)
  show "center_lab (make_cluster samplesBgr labs ls k) = mean3 (members ls (int k)) labs"
    by (simp add: make_cluster_def Let_def len div3_def sum3_def mean3_def sm)
  show "center_bgr (make_cluster samplesBgr labs ls k) = mean3 (members ls (int k)) samplesBgr"
    by (simp add: make_cluster_def Let_def len div3_def sum3_def mean3_def sm)
  show "cluster_id (make_cluster samplesBgr labs ls k) = int k"
    by (simp add: make_cluster_def Let_def)
qed

lemma clusterColorsDbscan_facts:
  assumes r: "clusterColorsDbscan toLab samplesBgr eps = (ls, ci)"
  shows "length ls = length samplesBgr"
    and "\<And>i j. i < length samplesBgr \<Longrightarrow> j < length samplesBgr \<Longrightarrow>
           ls ! i = ls ! j \<longleftrightarrow> linked (map toLab samplesBgr) eps i j"
    and "set ls = dom (map_of ci)"
    and "\<And>k c. map_of ci k = Some c \<Longrightarrow>
           members ls k \<noteq> {} \<and> cluster_id c = k \<and>
           count c = card (members ls k) \<and> count c = count_list ls k \<and>
           center_lab c = mean3 (members ls k) (map toLab samplesBgr) \<and>
           center_bgr c = mean3 (members ls k) samplesBgr"
proof -
  let ?labs = "map toLab samplesBgr" and ?n = "length samplesBgr"
  show len: "length ls = ?n"
  proof (cases "samplesBgr = []")
    case True
    with r show ?thesis by (simp add: clusterColorsDbscan_def)
  next
    case False
    with r obtain cid where "dbscan_labels ?labs eps = (ls, cid)"
      by (auto simp: clusterColorsDbscan_def Let_def split: prod.splits)
    from dbscan_labels_facts(1)[OF this] show ?thesis by simp
  qed
  show "\<And>i j. i < ?n \<Longrightarrow> j < ?n \<Longrightarrow> ls ! i = ls ! j \<longleftrightarrow> linked ?labs eps i j"
  proof -
    fix i j assume ij: "i < ?n" "j < ?n"
    then have "samplesBgr \<noteq> []" by auto
    with r obtain cid where "dbscan_labels ?labs eps = (ls, cid)"
      by (auto simp: clusterColorsDbscan_def Let_def split: prod.splits)
    from dbscan_labels_facts(4)[OF this, of i j] ij
    show "ls ! i = ls ! j \<longleftrightarrow> linked ?labs eps i j" by simp
  qed
  show "set ls = dom (map_of ci)"
  proof (cases "samplesBgr = []")
    case True
    with r show ?thesis by (simp add: clusterColorsDbscan_def)
  next
    case False
    with r obtain cid where db: "dbscan_labels ?labs eps = (ls, cid)"
      and ci: "ci = map (\<lambda>k. (int k, make_cluster samplesBgr ?labs ls k)) [0..<cid]"
      by (auto simp: clusterColorsDbscan_def Let_def split: prod.splits)
    have dm: "dom (map_of ci) = {k. 0 \<le> k \<and> k < int cid}"
      unfolding ci by (auto simp: map_of_upt_keys split: if_splits)
    show ?thesis
    proof
      show "set ls \<subseteq> dom (map_of ci)"
        unfolding dm using dbscan_labels_facts(2)[OF db] len
        by (auto simp: in_set_conv_nth)
      show "dom (map_of ci) \<subseteq> set ls"
      proof
        fix k assume "k \<in> dom (map_of ci)"
        with dm have "nat k < cid" "k = int (nat k)" by auto
        with dbscan_labels_facts(3)[OF db, of "nat k"] obtain j where "j < ?n" "ls ! j = k"
          by auto
        with len show "k \<in> set ls" by (auto simp: in_set_conv_nth)
      qed
    qed
  qed
  fix k c assume kc: "map_of ci k = Some c"
  then have ne: "samplesBgr \<noteq> []"
    using r by (auto simp: clusterColorsDbscan_def)
  with r obtain cid where db: "dbscan_labels ?labs eps = (ls, cid)"
    and ci: "ci = map (\<lambda>k. (int k, make_cluster samplesBgr ?labs ls k)) [0..<cid]"
    by (auto simp: clusterColorsDbscan_def Let_def split: prod.splits)
  from kc have k: "0 \<le> k" "k < int cid" and c: "c = make_cluster samplesBgr ?labs ls (nat k)"
    unfolding ci by (auto simp: map_of_upt_keys split: if_splits)
  from k have "nat k < cid" "int (nat k) = k" by simp_all
  with dbscan_labels_facts(3)[OF db, of "nat k"] obtain j where "j < ?n" "ls ! j = k"
    by auto
  with len have "j \<in> members ls k" by (simp add: members_def)
  then have "members ls k \<noteq> {}" by blast
  with make_cluster_facts[OF len, of ?labs "nat k"] k(1)
  show "members ls k \<noteq> {} \<and> cluster_id c = k \<and>
           count c = card (members ls k) \<and> count c = count_list ls k \<and>
           center_lab c = mean3 (members ls k) ?labs \<and>
           center_bgr c = mean3 (members ls k) samplesBgr"
    by (simp add: c)
qed

subsection \<open>Reordering the samples\<close>




subsection \<open>Evaluation of a sample list\<close>

text \<open>Three samples: two Lab colours 4 apart and a third 96 away from them.\<close>

definition S3 :: "vec3 list" where "S3 = [(100, 128, 128), (104, 128, 128), (200, 128, 128)]"

lemma flood_eq:
  "flood labs eps n cid (ls, queue) =
     (if queue = [] then ls
      else flood labs eps n cid (inner_for labs eps n cid (last queue) (ls, butlast queue)))"
  by (subst flood.simps) simp

lemmas dbscan_eval = dbscan_labels_def outer_step_def unlabelled_def flood_eq inner_for_def
  inner_step_def dist3_axis upt_rec

lemma make_cluster_same:
  "make_cluster vs vs ls k =
     mk_cluster (int k) (length (filter (\<lambda>i. ls ! i = int k) [0..<length vs]))
       (div3 (sum3 (map ((!) vs) (filter (\<lambda>i. ls ! i = int k) [0..<length vs])))
          (real (length (filter (\<lambda>i. ls ! i = int k) [0..<length vs]))))"
  by (simp add: make_cluster_def mk_cluster_def Let_def)

lemma S3_labels: "dbscan_labels S3 16 = ([0, 0, 1], 2)"
  by (simp add: S3_def dbscan_eval)

lemma S3_clusters:
  "clusterColorsDbscan (\<lambda>c. c) S3 16 =
     ([0, 0, 1], [(0, mk_cluster 0 2 (102, 128, 128)), (1, mk_cluster 1 1 (200, 128, 128))])"
proof -
  have "make_cluster S3 S3 [0, 0, 1] 0 = mk_cluster 0 2 (102, 128, 128)"
    by (simp add: make_cluster_same) (simp add: S3_def upt_rec sum3_def div3_def numeral_2_eq_2)
  moreover have "make_cluster S3 S3 [0, 0, 1] 1 = mk_cluster 1 1 (200, 128, 128)"
    by (simp add: make_cluster_same) (simp add: S3_def upt_rec sum3_def div3_def numeral_2_eq_2)
  moreover have "S3 \<noteq> []" by (simp add: S3_def)
  ultimately show ?thesis
    by (simp add: clusterColorsDbscan_def S3_labels upt_rec)
qed



section \<open>Merging conserves the samples\<close>

text \<open>
  \<open>pooled\<close>: every label is a live cluster id and the count of every live cluster is
  the number of samples that carry its id.
\<close>

definition pooled :: "int list \<Rightarrow> (int \<rightharpoonup> cluster) \<Rightarrow> bool" where
  "pooled ls m \<longleftrightarrow> set ls \<subseteq> dom m \<and> (\<forall>k c. m k = Some c \<longrightarrow> count c = count_list ls k)"

lemma count_list_relabel:
  "k \<noteq> dr \<Longrightarrow>
     count_list (map (\<lambda>l. if l = dr then k else l) ls) x =
       (if x = dr then 0
        else if x = k then count_list ls k + count_list ls dr
        else count_list ls x)"
  by (induction ls) auto

lemma pooled_merge:
  assumes p: "pooled ls m" and a: "m k = Some a" and b: "m dr = Some b" and ne: "k \<noteq> dr"
  shows "pooled (map (\<lambda>l. if l = dr then k else l) ls)
           ((m(k \<mapsto> merged_cluster a b))(dr := None))"
proof -
  from p have sub: "set ls \<subseteq> dom m"
    and cnt: "\<And>k c. m k = Some c \<Longrightarrow> count c = count_list ls k"
    by (auto simp: pooled_def)
  have "set (map (\<lambda>l. if l = dr then k else l) ls)
          \<subseteq> dom ((m(k \<mapsto> merged_cluster a b))(dr := None))"
    using sub a ne by auto
  moreover have "\<forall>x c. ((m(k \<mapsto> merged_cluster a b))(dr := None)) x = Some c \<longrightarrow>
      count c = count_list (map (\<lambda>l. if l = dr then k else l) ls) x"
  proof (intro allI impI)
    fix x c assume xc: "((m(k \<mapsto> merged_cluster a b))(dr := None)) x = Some c"
    then have xd: "x \<noteq> dr" by (auto split: if_splits)
    show "count c = count_list (map (\<lambda>l. if l = dr then k else l) ls) x"
    proof (cases "x = k")
      case True
      with xc xd have "c = merged_cluster a b" by simp
      with True ne cnt[OF a] cnt[OF b] show ?thesis
        by (simp add: count_list_relabel merged_cluster_fields)
    next
      case False
      with xc xd have "m x = Some c" by simp
      from cnt[OF this] False xd ne show ?thesis
        by (simp add: count_list_relabel)
    qed
  qed
  ultimately show ?thesis by (simp add: pooled_def)
qed

lemma merge_loop_pooled:
  "merge_loop cap mx ex s = (ls', ci', ms') \<Longrightarrow>
     pooled (fst s) (map_of (fst (snd s))) \<Longrightarrow>
     pooled ls' (map_of ci') \<and> length ls' = length (fst s)"
proof (induction cap mx ex s rule: merge_loop.induct)
  case (1 cap mx ex s)
  obtain ls ci ms0 where s: "s = (ls, ci, ms0)" by (cases s)
  show ?case
  proof (cases "merge_iter cap mx ex s")
    case None
    with "1.prems" show ?thesis
      by (auto simp: merge_loop.simps[of cap mx ex s])
  next
    case (Some s1)
    obtain ls1 ci1 ms1 where s1: "s1 = (ls1, ci1, ms1)" by (cases s1)
    from Some have "merge_iter cap mx ex (ls, ci, ms0) = Some (ls1, ci1, ms1)"
      by (simp add: s s1)
    then obtain b a c where b: "find_best ci cap mx = Some b"
      and ac: "map_of ci (m_keep b) = Some a" "map_of ci (m_drop b) = Some c"
      and ls1: "ls1 = map (\<lambda>l. if l = m_drop b then m_keep b else l) ls"
      and ci1: "ci1 = AList.delete (m_drop b) (AList.update (m_keep b) (merged_cluster a c) ci)"
      by (rule merge_iter_Some)
    from find_best_Some(1)[OF b] have ne: "m_keep b \<noteq> m_drop b" by simp
    from "1.prems"(2) have "pooled ls (map_of ci)" by (simp add: s)
    from pooled_merge[OF this ac ne] have p1: "pooled (fst s1) (map_of (fst (snd s1)))"
      by (simp add: s1 ls1 ci1 map_of_merged)
    from "1.prems"(1) Some have "merge_loop cap mx ex s1 = (ls', ci', ms')"
      by (simp add: merge_loop.simps[of cap mx ex s])
    from "1.IH"[OF Some this p1] show ?thesis
      by (simp add: s s1 ls1)
  qed
qed

lemma merge_pooled:
  assumes "pooled labelsIn (map_of ci)"
  shows "pooled (labels (mergeClustersToExpectedCount labelsIn ci capacity eps))
           (map_of (clusterInfo (mergeClustersToExpectedCount labelsIn ci capacity eps)))"
    and "length (labels (mergeClustersToExpectedCount labelsIn ci capacity eps)) = length labelsIn"
proof -
  let ?r = "mergeClustersToExpectedCount labelsIn ci capacity eps"
  have "pooled (labels ?r) (map_of (clusterInfo ?r)) \<and> length (labels ?r) = length labelsIn"
  proof (cases "\<exists>c. capacity = Some c \<and> 0 < c \<and> labelsIn \<noteq> [] \<and> int (length labelsIn) mod c = 0")
    case True
    then obtain c where c: "capacity = Some c" "0 < c" "labelsIn \<noteq> []"
      "int (length labelsIn) mod c = 0"
      by (elim exE conjE)
    from merge_loop_pooled[OF merge_result_loop(1)[OF c(2,3,4), of eps ci]] assms
    show ?thesis by (simp add: c(1))
  next
    case False
    then have "?r = \<lparr>labels = labelsIn, clusterInfo = ci, merges = [], expectedColors = None\<rparr>"
      by (rule merge_skip)
    with assms show ?thesis by simp
  qed
  then show "pooled (labels ?r) (map_of (clusterInfo ?r))"
    and "length (labels ?r) = length labelsIn"
    by simp_all
qed

lemma pooled_total:
  assumes "pooled ls (map_of ci)"
  shows "(\<Sum>k\<in>dom (map_of ci). count (the (map_of ci k))) = length ls"
proof -
  from assms have sub: "set ls \<subseteq> dom (map_of ci)"
    and cnt: "\<And>k. k \<in> dom (map_of ci) \<Longrightarrow> count (the (map_of ci k)) = count_list ls k"
    by (auto simp: pooled_def)
  have "(\<Sum>k\<in>dom (map_of ci). count (the (map_of ci k)))
          = (\<Sum>k\<in>dom (map_of ci). count_list ls k)"
    by (rule sum.cong) (simp_all add: cnt)
  also have "\<dots> = length ls"
    by (rule sum_count_set[OF sub finite_dom_map_of])
  finally show ?thesis .
qed

lemma dbscan_pooled:
  "pooled (fst (clusterColorsDbscan toLab samplesBgr e))
     (map_of (snd (clusterColorsDbscan toLab samplesBgr e)))"
proof -
  let ?r = "clusterColorsDbscan toLab samplesBgr e"
  have r: "?r = (fst ?r, snd ?r)" by simp
  note f = clusterColorsDbscan_facts[OF r]
  have "\<And>k c. map_of (snd ?r) k = Some c \<Longrightarrow> count c = count_list (fst ?r) k"
    using f(4) by blast
  with f(3) show ?thesis
    unfolding pooled_def by blast
qed

text \<open>
  C10. Take the labels and the cluster map that \<open>clusterColorsDbscan\<close> produces and
  hand them to \<open>mergeClustersToExpectedCount\<close>, with any capacity and epsilon. Every
  returned label is a key of the returned cluster map, the member counts of the returned
  clusters add up to the number of samples, and each count is the number of samples that
  carry the id of its cluster.
\<close>

theorem merge_conserves_samples:
  "set (labels (mergeClustersToExpectedCount (fst (clusterColorsDbscan toLab samplesBgr e))
                  (snd (clusterColorsDbscan toLab samplesBgr e)) capacity eps))
     \<subseteq> dom (map_of (clusterInfo (mergeClustersToExpectedCount
                  (fst (clusterColorsDbscan toLab samplesBgr e))
                  (snd (clusterColorsDbscan toLab samplesBgr e)) capacity eps))) \<and>
   (\<Sum>k\<in>dom (map_of (clusterInfo (mergeClustersToExpectedCount
                  (fst (clusterColorsDbscan toLab samplesBgr e))
                  (snd (clusterColorsDbscan toLab samplesBgr e)) capacity eps))).
       count (the (map_of (clusterInfo (mergeClustersToExpectedCount
                  (fst (clusterColorsDbscan toLab samplesBgr e))
                  (snd (clusterColorsDbscan toLab samplesBgr e)) capacity eps)) k)))
     = length samplesBgr \<and>
   pooled (labels (mergeClustersToExpectedCount (fst (clusterColorsDbscan toLab samplesBgr e))
                  (snd (clusterColorsDbscan toLab samplesBgr e)) capacity eps))
     (map_of (clusterInfo (mergeClustersToExpectedCount
                  (fst (clusterColorsDbscan toLab samplesBgr e))
                  (snd (clusterColorsDbscan toLab samplesBgr e)) capacity eps)))"
proof -
  let ?db = "clusterColorsDbscan toLab samplesBgr e"
  let ?r = "mergeClustersToExpectedCount (fst ?db) (snd ?db) capacity eps"
  have db: "?db = (fst ?db, snd ?db)" by simp
  have len: "length (fst ?db) = length samplesBgr"
    by (rule clusterColorsDbscan_facts(1)[OF db])
  note p = merge_pooled[OF dbscan_pooled, of toLab samplesBgr e capacity eps]
  from p(1) have "set (labels ?r) \<subseteq> dom (map_of (clusterInfo ?r))"
    by (simp add: pooled_def)
  moreover from pooled_total[OF p(1)] p(2) len
  have "(\<Sum>k\<in>dom (map_of (clusterInfo ?r)). count (the (map_of (clusterInfo ?r) k)))
          = length samplesBgr"
    by simp
  ultimately show ?thesis using p(1) by simp
qed


theorem merge_conserves_samples_witness:
  "set (labels (mergeClustersToExpectedCount [0, 0, 1]
          [(0, mk_cluster 0 2 (102, 128, 128)), (1, mk_cluster 1 1 (200, 128, 128))]
          (Some 3) (Some 16)))
     \<subseteq> dom (map_of (clusterInfo (mergeClustersToExpectedCount [0, 0, 1]
          [(0, mk_cluster 0 2 (102, 128, 128)), (1, mk_cluster 1 1 (200, 128, 128))]
          (Some 3) (Some 16)))) \<and>
   (\<Sum>k\<in>dom (map_of (clusterInfo (mergeClustersToExpectedCount [0, 0, 1]
          [(0, mk_cluster 0 2 (102, 128, 128)), (1, mk_cluster 1 1 (200, 128, 128))]
          (Some 3) (Some 16)))).
       count (the (map_of (clusterInfo (mergeClustersToExpectedCount [0, 0, 1]
          [(0, mk_cluster 0 2 (102, 128, 128)), (1, mk_cluster 1 1 (200, 128, 128))]
          (Some 3) (Some 16))) k)))
     = length S3"
  using merge_conserves_samples[of "\<lambda>c. c" S3 16 "Some 3" "Some 16"]
  by (simp add: S3_clusters)

section \<open>mergeClustersToExpectedCount on a store\<close>












subsection \<open>The store-level loop computes the value-level loop\<close>









section \<open>Grid normalisation: enforceFixedBottleGrid\<close>


subsection \<open>Helpers\<close>



definition clamp :: "real \<Rightarrow> real \<Rightarrow> real \<Rightarrow> real" where
  "clamp v lo hi = max lo (min hi v)"


text \<open>
  \<^verbatim>\<open>kmeans1D\<close>. The index of the nearest centre is the first one at least distance
  (\<^verbatim>\<open>d < bestDist\<close>, starting from \<^verbatim>\<open>Infinity\<close>, here \<open>None\<close>). The source assumes
  \<^verbatim>\<open>values.length >= k\<close>; its callers pass at least two values.
\<close>

definition nearest :: "real list \<Rightarrow> real \<Rightarrow> nat" where
  "nearest centers v =
     fst (foldl (\<lambda>(best, bestDist) i.
                   let dd = \<bar>v - centers ! i\<bar>
                   in (case bestDist of
                         None \<Rightarrow> (i, Some dd)
                       | Some bd \<Rightarrow> if dd < bd then (i, Some dd) else (best, bestDist)))
           (0, None) [0..<length centers])"

definition kmeans_step :: "real list \<Rightarrow> real list \<Rightarrow> real list" where
  "kmeans_step vals centers =
     map (\<lambda>i. let g = filter (\<lambda>v. nearest centers v = i) vals
              in if g \<noteq> [] then sum_list g / real (length g) else centers ! i)
       [0..<length centers]"

definition kmeans1D :: "real list \<Rightarrow> nat \<Rightarrow> nat \<Rightarrow> real list" where
  "kmeans1D vals k iters =
     (let n = length vals;
          sorted = sort vals;
          centers = map (\<lambda>i. sorted ! nat \<lfloor>((real i + 1 / 2) / real k) * (real n - 1)\<rfloor>) [0..<k]
      in sort ((kmeans_step vals ^^ iters) centers))"

subsection \<open>The steps of enforceFixedBottleGrid\<close>








text \<open>
  The three column centres, before clamping. The assignments to \<^verbatim>\<open>dx\<close> in these
  branches are left out: \<^verbatim>\<open>dx\<close> is not read afterwards.
\<close>

definition raw_x_centers :: "int \<Rightarrow> real \<Rightarrow> real list \<Rightarrow> real list" where
  "raw_x_centers W dx xs =
     (if length xs \<ge> 3 then kmeans1D xs 3 10
      else if length xs = 2 then
        let sx = sort xs;
            x1 = sx ! 0;
            x2 = sx ! 1;
            diff = x2 - x1
        in if diff > dx * (16 / 10) then
             let step = diff / 2 in [x1, x1 + step, x1 + 2 * step]
           else if x1 < real_of_int W / 2 then [x1, x2, x2 + diff]
           else [x1 - diff, x1, x2]
      else if length xs = 1 then
        let xv = xs ! 0;
            col = (if xv < real_of_int W * (45 / 100) then 0
                   else if xv > real_of_int W * (55 / 100) then 2 else (1::nat))
        in if col = 0 then [xv, xv + dx, xv + 2 * dx]
           else if col = 1 then [xv - dx, xv, xv + dx]
           else [xv - 2 * dx, xv - dx, xv]
      else [real_of_int W * (38 / 100), real_of_int W * (50 / 100), real_of_int W * (62 / 100)])"

definition x_centers :: "int \<Rightarrow> real \<Rightarrow> real \<Rightarrow> real list \<Rightarrow> real list" where
  "x_centers W wMed dx xs =
     sort (map (\<lambda>v. clamp v (wMed * (6 / 10)) (real_of_int W - wMed * (6 / 10)))
             (raw_x_centers W dx xs))"

definition raw_y_centers :: "int \<Rightarrow> real \<Rightarrow> real \<Rightarrow> real list \<Rightarrow> real list" where
  "raw_y_centers H hMed dy ys =
     (if length ys \<ge> 2 then
        let centers = kmeans1D ys 2 10;
            sep = \<bar>centers ! 1 - centers ! 0\<bar>
        in if sep < hMed * (8 / 10) then
             let y0 = centers ! 0
             in if y0 < real_of_int H / 2 then [y0, y0 + dy] else [y0 - dy, y0]
           else centers
      else if length ys = 1 then
        let yv = ys ! 0
        in if yv < real_of_int H / 2 then [yv, yv + dy] else [yv - dy, yv]
      else [real_of_int H * (33 / 100), real_of_int H * (65 / 100)])"

definition y_centers :: "int \<Rightarrow> real \<Rightarrow> real \<Rightarrow> real list \<Rightarrow> real list" where
  "y_centers H hMed dy ys =
     sort (map (\<lambda>v. clamp v (hMed * (6 / 10)) (real_of_int H - hMed * (6 / 10)))
             (raw_y_centers H hMed dy ys))"
















subsection \<open>What normalisation guarantees\<close>





lemma length_kmeans_iter: "length ((kmeans_step vals ^^ n) cs) = length cs"
  by (induction n) (simp_all add: kmeans_step_def)

lemma length_kmeans1D: "length (kmeans1D vals k iters) = k"
  by (simp add: kmeans1D_def Let_def length_kmeans_iter)

lemma length_x_centers: "length (x_centers W wMed dx xs) = 3"
  by (simp add: x_centers_def raw_x_centers_def length_kmeans1D Let_def)

lemma length_y_centers: "length (y_centers H hMed dy ys) = 2"
  by (simp add: y_centers_def raw_y_centers_def length_kmeans1D Let_def)









subsection \<open>Evaluation on one candidate as large as the image\<close>















section \<open>The worker: buildResult and self.onmessage\<close>







subsection \<open>A capacity that is not positive\<close>









section \<open>Puzzle solver\<close>

text \<open>Modelled from the spec: solver.js (solveBfs, applyMove) is imported by main.js but is
  not among the sources, so the solver follows section 4.3 of the specification. A container
  stack lists its tokens bottom first (the top is the last element, as in the fixtures of the
  specification); a move is (source index, destination index, color token, amount).\<close>

type_synonym stack = "int list"
type_synonym solver_state = "stack list"
type_synonym move = "nat \<times> nat \<times> int \<times> nat"

text \<open>Modelled from the spec: the result \<^verbatim>\<open>{solved, moves, exploredCount, failureReason}\<close> of
  the solver contract, with the two failure categories; \<^verbatim>\<open>extraUsed\<close> and \<^verbatim>\<open>extraAllowed\<close> are
  the fields that \<^verbatim>\<open>solveAndRender\<close> of main.js adds to the returned object (\<open>None\<close> until
  then).\<close>

datatype failure = stateLimitExceeded | queueExhausted

record 'm solve_info =
  solved :: bool
  moves :: "'m list"
  exploredCount :: nat
  failureReason :: "failure option"
  extraUsed :: "nat option"
  extraAllowed :: "nat option"

text \<open>Modelled from the spec: the color at the top of a stack.\<close>

definition topColor :: "stack \<Rightarrow> int" where
  "topColor st = last st"

text \<open>Modelled from the spec: the count of contiguous same-color slots from the top.\<close>

definition runLength :: "stack \<Rightarrow> nat" where
  "runLength st = length (takeWhile (\<lambda>c. c = last st) (rev st))"

text \<open>Modelled from the spec: the legality test of move generation, for an ordered pair
  (src, dst).\<close>

definition legal_pair :: "nat \<Rightarrow> nat set \<Rightarrow> solver_state \<Rightarrow> nat \<Rightarrow> nat \<Rightarrow> bool" where
  "legal_pair capacity blocked s src dst =
     (src < length s \<and> dst < length s \<and> src \<noteq> dst \<and> src \<notin> blocked \<and> s ! src \<noteq> [] \<and>
      length (s ! dst) < capacity \<and>
      (s ! dst = [] \<or> topColor (s ! dst) = topColor (s ! src)))"

text \<open>Modelled from the spec: the transferred amount, min(runLength, capacity - len(dst)).\<close>

definition amount_of :: "nat \<Rightarrow> solver_state \<Rightarrow> nat \<Rightarrow> nat \<Rightarrow> nat" where
  "amount_of capacity s src dst = min (runLength (s ! src)) (capacity - length (s ! dst))"

text \<open>Modelled from the spec: the move produced for a legal pair.\<close>

definition move_of :: "nat \<Rightarrow> solver_state \<Rightarrow> nat \<Rightarrow> nat \<Rightarrow> move" where
  "move_of capacity s src dst = (src, dst, topColor (s ! src), amount_of capacity s src dst)"

text \<open>Modelled from the spec: applying a move pops amount tokens off the source and pushes
  them onto the destination.\<close>

fun applyMove :: "solver_state \<Rightarrow> move \<Rightarrow> solver_state" where
  "applyMove s (src, dst, c, a) =
     (let st = s ! src; keep = length st - a
      in (s[src := take keep st])[dst := s ! dst @ rev (drop keep st)])"

text \<open>Modelled from the spec: a move is legal in a state when it is the move generated there
  for its pair (src, dst).\<close>

definition legal :: "nat \<Rightarrow> nat set \<Rightarrow> solver_state \<Rightarrow> move \<Rightarrow> bool" where
  "legal capacity blocked s m =
     (case m of (src, dst, c, a) \<Rightarrow>
        legal_pair capacity blocked s src dst \<and> m = move_of capacity s src dst)"

text \<open>Modelled from the spec: all legal moves of a state with their successor states, in
  ascending order of src, then of dst.\<close>

definition successors :: "nat \<Rightarrow> nat set \<Rightarrow> solver_state \<Rightarrow> (move \<times> solver_state) list" where
  "successors capacity blocked s =
     concat (map (\<lambda>src. concat (map (\<lambda>dst.
        if legal_pair capacity blocked s src dst
        then [(move_of capacity s src dst, applyMove s (move_of capacity s src dst))]
        else []) [0..<length s])) [0..<length s])"

text \<open>Modelled from the spec: the goal predicate of mode "mono": no container mixes two
  colors, whatever its fill level.\<close>

datatype goal_mode = Mono

definition mono_goal :: "solver_state \<Rightarrow> bool" where
  "mono_goal s = list_all (\<lambda>st. list_all (\<lambda>c. c = topColor st) st) s"

fun goal_of :: "goal_mode \<Rightarrow> solver_state \<Rightarrow> bool" where
  "goal_of Mono = mono_goal"

text \<open>Modelled from the spec: a sequence of moves played from a state; every move must be
  legal in the state it is applied to.\<close>

fun play :: "nat \<Rightarrow> nat set \<Rightarrow> solver_state \<Rightarrow> move list \<Rightarrow> solver_state option" where
  "play capacity blocked s [] = Some s"
| "play capacity blocked s (m # ms) =
     (if legal capacity blocked s m then play capacity blocked (applyMove s m) ms else None)"

subsection \<open>Breadth-first search\<close>

text \<open>Modelled from the spec: the search. A queue entry is a state with the moves that lead
  to it from the root (its chain of predecessor links, read from the root); a successor is
  enqueued only if its encoding (the value of all stacks) has not been visited. The goal is
  tested on the dequeued state, before it is expanded; maxStates caps the expansions.\<close>

definition enqueue_step ::
  "'m list \<Rightarrow> ('s \<times> 'm list) list \<times> 's list \<Rightarrow> 'm \<times> 's \<Rightarrow> ('s \<times> 'm list) list \<times> 's list" where
  "enqueue_step p qv mt =
     (case qv of (q, vis) \<Rightarrow> case mt of (m, t) \<Rightarrow>
        if t \<in> set vis then (q, vis) else (q @ [(t, p @ [m])], t # vis))"

text \<open>Modelled from the spec: the expansion of a dequeued state into all its legal successor
  states, in the order of move generation.\<close>

definition expand ::
  "('s \<Rightarrow> ('m \<times> 's) list) \<Rightarrow> 's \<Rightarrow> 'm list \<Rightarrow> ('s \<times> 'm list) list \<Rightarrow> 's list
     \<Rightarrow> ('s \<times> 'm list) list \<times> 's list" where
  "expand succs s p q vis = foldl (enqueue_step p) (q, vis) (succs s)"

text \<open>Modelled from the spec: the search loop over the queue, the visited states and the
  number of expansions. An empty queue is failure category (2), the cap on expansions
  category (1), and no moves are returned with either.\<close>

function bfs ::
  "('s \<Rightarrow> ('m \<times> 's) list) \<Rightarrow> ('s \<Rightarrow> bool) \<Rightarrow> nat \<Rightarrow> ('s \<times> 'm list) list \<Rightarrow> 's list \<Rightarrow> nat
     \<Rightarrow> 'm solve_info" where
  "bfs succs goal maxStates [] vis explored =
     \<lparr>solved = False, moves = [], exploredCount = explored,
      failureReason = Some queueExhausted, extraUsed = None, extraAllowed = None\<rparr>"
| "bfs succs goal maxStates ((s, p) # q) vis explored =
     (if goal s then
        \<lparr>solved = True, moves = p, exploredCount = explored,
         failureReason = None, extraUsed = None, extraAllowed = None\<rparr>
      else if maxStates \<le> explored then
        \<lparr>solved = False, moves = [], exploredCount = explored,
         failureReason = Some stateLimitExceeded, extraUsed = None, extraAllowed = None\<rparr>
      else bfs succs goal maxStates (fst (expand succs s p q vis)) (snd (expand succs s p q vis))
             (Suc explored))"
  by pat_completeness auto
termination
  by (relation "measure (\<lambda>(succs, goal, maxStates, q, vis, explored). maxStates - explored)") auto

text \<open>Modelled from the spec: \<^verbatim>\<open>solve(initialBoard, maxStates, goalPredicateKind)\<close>, the board
  being the stacks, the capacity and the set of blocked indices.\<close>

definition solveBfs ::
  "solver_state \<Rightarrow> nat \<Rightarrow> nat set \<Rightarrow> nat \<Rightarrow> goal_mode \<Rightarrow> move solve_info" where
  "solveBfs initial capacity blocked maxStates goalMode =
     bfs (successors capacity blocked) (goal_of goalMode) maxStates [(initial, [])] [initial] 0"

subsection \<open>Paths\<close>

fun follows :: "('s \<Rightarrow> ('m \<times> 's) list) \<Rightarrow> 's \<Rightarrow> 'm list \<Rightarrow> 's \<Rightarrow> bool" where
  "follows succs s [] t = (t = s)"
| "follows succs s (m # ms) t = (\<exists>u. (m, u) \<in> set (succs s) \<and> follows succs u ms t)"

definition reach_le :: "('s \<Rightarrow> ('m \<times> 's) list) \<Rightarrow> nat \<Rightarrow> 's \<Rightarrow> 's \<Rightarrow> bool" where
  "reach_le succs k s t = (\<exists>p. length p \<le> k \<and> follows succs s p t)"

definition expanded :: "('s \<times> 'm list) list \<Rightarrow> 's list \<Rightarrow> 's set" where
  "expanded q vis = set vis - fst ` set q"

definition bfs_inv ::
  "('s \<Rightarrow> ('m \<times> 's) list) \<Rightarrow> ('s \<Rightarrow> bool) \<Rightarrow> 's \<Rightarrow> ('s \<times> 'm list) list \<Rightarrow> 's list \<Rightarrow> bool" where
  "bfs_inv succs goal s0 q vis =
     (sorted (map (\<lambda>e. length (snd e)) q) \<and>
      (\<forall>e\<in>set q. length (snd e) \<le> Suc (length (snd (hd q)))) \<and>
      (\<forall>e\<in>set q. follows succs s0 (snd e) (fst e)) \<and>
      (\<forall>u\<in>expanded q vis. \<not> goal u) \<and>
      fst ` set q \<subseteq> set vis \<and>
      distinct (map fst q) \<and>
      (\<forall>u\<in>expanded q vis. \<forall>e\<in>set q. reach_le succs (length (snd e)) s0 u) \<and>
      (\<forall>k t. reach_le succs k s0 t \<longrightarrow>
         t \<in> expanded q vis \<or>
         (\<exists>e\<in>set q. length (snd e) \<le> k \<and> reach_le succs (k - length (snd e)) (fst e) t)))"

lemma follows_append:
  "follows succs s (p @ p') t = (\<exists>u. follows succs s p u \<and> follows succs u p' t)"
  by (induction p arbitrary: s) auto

lemma reach_le_mono: "reach_le succs k s t \<Longrightarrow> k \<le> k' \<Longrightarrow> reach_le succs k' s t"
  unfolding reach_le_def by (meson le_trans)

lemma reach_le_refl: "reach_le succs k s s"
  unfolding reach_le_def by (rule exI[of _ "[]"]) simp

lemma reach_le_follows: "follows succs s p t \<Longrightarrow> length p \<le> k \<Longrightarrow> reach_le succs k s t"
  unfolding reach_le_def by blast

lemma reach_le_trans:
  assumes "reach_le succs a s u" "reach_le succs b u t"
  shows "reach_le succs (a + b) s t"
proof -
  from assms obtain p p' where "length p \<le> a" "follows succs s p u"
    "length p' \<le> b" "follows succs u p' t"
    unfolding reach_le_def by blast
  then have "length (p @ p') \<le> a + b" "follows succs s (p @ p') t"
    by (auto simp: follows_append)
  then show ?thesis unfolding reach_le_def by blast
qed

lemma reach_le_cases:
  assumes "reach_le succs k s t"
  shows "t = s \<or> (\<exists>m u. (m, u) \<in> set (succs s) \<and> 0 < k \<and> reach_le succs (k - 1) u t)"
proof -
  from assms obtain p where p: "length p \<le> k" "follows succs s p t"
    unfolding reach_le_def by blast
  show ?thesis
  proof (cases p)
    case Nil
    with p show ?thesis by simp
  next
    case (Cons m ms)
    with p obtain u where "(m, u) \<in> set (succs s)" "follows succs u ms t" by auto
    moreover from Cons p have "0 < k" "length ms \<le> k - 1" by auto
    ultimately show ?thesis unfolding reach_le_def by blast
  qed
qed

lemma foldl_enqueue:
  "\<exists>new. fst (foldl (enqueue_step p) (q, vis) xs) = q @ new \<and>
     set (snd (foldl (enqueue_step p) (q, vis) xs)) = set vis \<union> snd ` set xs \<and>
     (\<forall>e\<in>set new. \<exists>m. (m, fst e) \<in> set xs \<and> snd e = p @ [m]) \<and>
     fst ` set new = snd ` set xs - set vis \<and>
     distinct (map fst new)"
proof (induction xs arbitrary: q vis)
  case Nil
  show ?case by (rule exI[of _ "[]"]) simp
next
  case (Cons x xs)
  obtain m t where x: "x = (m, t)" by (cases x)
  show ?case
  proof (cases "t \<in> set vis")
    case True
    then have e: "foldl (enqueue_step p) (q, vis) (x # xs) = foldl (enqueue_step p) (q, vis) xs"
      by (simp add: enqueue_step_def x)
    from Cons.IH[of q vis] obtain new where n:
      "fst (foldl (enqueue_step p) (q, vis) xs) = q @ new"
      "set (snd (foldl (enqueue_step p) (q, vis) xs)) = set vis \<union> snd ` set xs"
      "\<forall>e\<in>set new. \<exists>m. (m, fst e) \<in> set xs \<and> snd e = p @ [m]"
      "fst ` set new = snd ` set xs - set vis"
      "distinct (map fst new)" by blast
    show ?thesis
    proof (rule exI[of _ new], intro conjI)
      show "fst (foldl (enqueue_step p) (q, vis) (x # xs)) = q @ new" using n(1) e by simp
      show "set (snd (foldl (enqueue_step p) (q, vis) (x # xs))) = set vis \<union> snd ` set (x # xs)"
        using n(2) e True x by auto
      show "\<forall>e\<in>set new. \<exists>m. (m, fst e) \<in> set (x # xs) \<and> snd e = p @ [m]"
        using n(3) by auto
      show "fst ` set new = snd ` set (x # xs) - set vis" using n(4) True x by auto
      show "distinct (map fst new)" by (rule n(5))
    qed
  next
    case False
    then have e: "foldl (enqueue_step p) (q, vis) (x # xs)
        = foldl (enqueue_step p) (q @ [(t, p @ [m])], t # vis) xs"
      by (simp add: enqueue_step_def x)
    from Cons.IH[of "q @ [(t, p @ [m])]" "t # vis"] obtain new where n:
      "fst (foldl (enqueue_step p) (q @ [(t, p @ [m])], t # vis) xs) = (q @ [(t, p @ [m])]) @ new"
      "set (snd (foldl (enqueue_step p) (q @ [(t, p @ [m])], t # vis) xs))
         = set (t # vis) \<union> snd ` set xs"
      "\<forall>e\<in>set new. \<exists>m. (m, fst e) \<in> set xs \<and> snd e = p @ [m]"
      "fst ` set new = snd ` set xs - set (t # vis)"
      "distinct (map fst new)" by blast
    show ?thesis
    proof (rule exI[of _ "(t, p @ [m]) # new"], intro conjI)
      show "fst (foldl (enqueue_step p) (q, vis) (x # xs)) = q @ (t, p @ [m]) # new"
        using n(1) e by simp
      show "set (snd (foldl (enqueue_step p) (q, vis) (x # xs))) = set vis \<union> snd ` set (x # xs)"
        using n(2) e x by auto
      show "\<forall>e\<in>set ((t, p @ [m]) # new). \<exists>m. (m, fst e) \<in> set (x # xs) \<and> snd e = p @ [m]"
        using n(3) x by auto
      show "fst ` set ((t, p @ [m]) # new) = snd ` set (x # xs) - set vis"
        using n(4) False x by auto
      show "distinct (map fst ((t, p @ [m]) # new))" using n(4,5) by auto
    qed
  qed
qed

lemma expand_facts:
  obtains new where
    "fst (expand succs s p q vis) = q @ new"
    "set (snd (expand succs s p q vis)) = set vis \<union> snd ` set (succs s)"
    "\<forall>e\<in>set new. \<exists>m. (m, fst e) \<in> set (succs s) \<and> snd e = p @ [m]"
    "fst ` set new = snd ` set (succs s) - set vis"
    "distinct (map fst new)"
  using foldl_enqueue[of p q vis "succs s"] unfolding expand_def by blast

lemma bfs_inv_init: "bfs_inv succs goal s0 [(s0, [])] [s0]"
  unfolding bfs_inv_def expanded_def by (auto intro: reach_le_mono)

lemma sorted_const: "\<forall>x\<in>set xs. x = (c::nat) \<Longrightarrow> sorted xs"
  by (induction xs) auto

lemma bfs_inv_step:
  assumes inv: "bfs_inv succs goal s0 ((s, ps) # q) vis" and ng: "\<not> goal s"
  shows "bfs_inv succs goal s0 (fst (expand succs s ps q vis)) (snd (expand succs s ps q vis))"
proof -
  let ?q' = "fst (expand succs s ps q vis)"
  let ?vis' = "snd (expand succs s ps q vis)"
  let ?E = "expanded ((s, ps) # q) vis"
  let ?E' = "expanded ?q' ?vis'"
  obtain new where new:
    "?q' = q @ new"
    "set ?vis' = set vis \<union> snd ` set (succs s)"
    "\<forall>e\<in>set new. \<exists>m. (m, fst e) \<in> set (succs s) \<and> snd e = ps @ [m]"
    "fst ` set new = snd ` set (succs s) - set vis"
    "distinct (map fst new)"
    by (rule expand_facts)
  from inv have a1: "sorted (map (\<lambda>e. length (snd e)) q)" "\<forall>e\<in>set q. length ps \<le> length (snd e)"
    unfolding bfs_inv_def by auto
  from inv have a2: "\<forall>e\<in>set q. length (snd e) \<le> Suc (length ps)"
    unfolding bfs_inv_def by auto
  from inv have a3: "follows succs s0 ps s" "\<forall>e\<in>set q. follows succs s0 (snd e) (fst e)"
    unfolding bfs_inv_def by auto
  from inv have a4: "\<forall>u\<in>?E. \<not> goal u"
    unfolding bfs_inv_def by blast
  from inv have a5: "s \<in> set vis" "fst ` set q \<subseteq> set vis"
    unfolding bfs_inv_def by auto
  from inv have a6: "s \<notin> fst ` set q" "distinct (map fst q)"
    unfolding bfs_inv_def by auto
  from inv have a7: "\<forall>u\<in>?E. reach_le succs (length ps) s0 u"
    unfolding bfs_inv_def by auto
  from inv have a8: "\<And>k t. reach_le succs k s0 t \<Longrightarrow> t \<in> ?E \<or>
      (\<exists>e\<in>set ((s, ps) # q). length (snd e) \<le> k \<and> reach_le succs (k - length (snd e)) (fst e) t)"
    unfolding bfs_inv_def by blast
  have lnew: "\<forall>e\<in>set new. length (snd e) = Suc (length ps)"
    using new(3) by fastforce
  have E': "?E' = insert s ?E"
    using new(1,2,4) a5 a6 unfolding expanded_def by auto
  have H: "\<forall>u\<in>?E'. reach_le succs (length ps) s0 u"
    using a7 a3(1) E' by (auto intro: reach_le_follows)
  have lq': "\<forall>e\<in>set ?q'. length ps \<le> length (snd e) \<and> length (snd e) \<le> Suc (length ps)"
    using a1(2) a2 lnew new(1) by auto
  have G: "\<And>m u. (m, u) \<in> set (succs s) \<Longrightarrow> u \<in> ?E' \<or> (\<exists>e\<in>set ?q'. fst e = u)"
  proof -
    fix m u assume "(m, u) \<in> set (succs s)"
    then have "u \<in> set ?vis'" using new(2) by force
    then show "u \<in> ?E' \<or> (\<exists>e\<in>set ?q'. fst e = u)"
      unfolding expanded_def by auto
  qed
  have n1: "sorted (map (\<lambda>e. length (snd e)) ?q')"
  proof -
    have "sorted (map (\<lambda>e. length (snd e)) new)"
      by (rule sorted_const[of _ "Suc (length ps)"]) (use lnew in auto)
    with a1(1) a2 lnew show ?thesis by (auto simp: new(1) sorted_append)
  qed
  have n2: "\<forall>e\<in>set ?q'. length (snd e) \<le> Suc (length (snd (hd ?q')))"
  proof (cases "?q' = []")
    case True
    then show ?thesis by simp
  next
    case False
    then have "hd ?q' \<in> set ?q'" by simp
    with lq' have "length ps \<le> length (snd (hd ?q'))" by blast
    with lq' show ?thesis by fastforce
  qed
  have n3: "\<forall>e\<in>set ?q'. follows succs s0 (snd e) (fst e)"
  proof
    fix e assume "e \<in> set ?q'"
    then consider "e \<in> set q" | "e \<in> set new" using new(1) by auto
    then show "follows succs s0 (snd e) (fst e)"
    proof cases
      case 1
      with a3(2) show ?thesis by blast
    next
      case 2
      with new(3) obtain m where "(m, fst e) \<in> set (succs s)" "snd e = ps @ [m]" by blast
      with a3(1) show ?thesis by (auto simp: follows_append)
    qed
  qed
  have n4: "\<forall>u\<in>?E'. \<not> goal u" using a4 ng E' by auto
  have n5: "fst ` set ?q' \<subseteq> set ?vis'" using new(1,2,4) a5(2) by auto
  have n6: "distinct (map fst ?q')" using new(1,4,5) a6(2) a5(2) by auto
  have n7: "\<forall>u\<in>?E'. \<forall>e\<in>set ?q'. reach_le succs (length (snd e)) s0 u"
    using H lq' by (blast intro: reach_le_mono)
  have n8: "\<forall>k t. reach_le succs k s0 t \<longrightarrow> t \<in> ?E' \<or>
      (\<exists>e\<in>set ?q'. length (snd e) \<le> k \<and> reach_le succs (k - length (snd e)) (fst e) t)"
  proof (intro allI)
    fix k t
    show "reach_le succs k s0 t \<longrightarrow> t \<in> ?E' \<or>
      (\<exists>e\<in>set ?q'. length (snd e) \<le> k \<and> reach_le succs (k - length (snd e)) (fst e) t)"
    proof (induction k rule: less_induct)
      case (less k)
      show ?case
      proof
        assume r: "reach_le succs k s0 t"
        from a8[OF r] consider "t \<in> ?E"
          | e where "e \<in> set q" "length (snd e) \<le> k" "reach_le succs (k - length (snd e)) (fst e) t"
          | "length ps \<le> k" "reach_le succs (k - length ps) s t"
          by auto
        then show "t \<in> ?E' \<or>
          (\<exists>e\<in>set ?q'. length (snd e) \<le> k \<and> reach_le succs (k - length (snd e)) (fst e) t)"
        proof cases
          case 1
          then show ?thesis using E' by simp
        next
          case 2
          then show ?thesis using new(1) by auto
        next
          case 3
          from reach_le_cases[OF 3(2)] consider "t = s"
            | m u where "(m, u) \<in> set (succs s)" "0 < k - length ps"
                "reach_le succs (k - length ps - 1) u t"
            by blast
          then show ?thesis
          proof cases
            case 1
            then show ?thesis using E' by simp
          next
            case 2
            from G[OF 2(1)] show ?thesis
            proof
              assume "u \<in> ?E'"
              with H have "reach_le succs (length ps) s0 u" by blast
              from reach_le_trans[OF this 2(3)] 3(1) 2(2)
              have r1: "reach_le succs (k - 1) s0 t" by simp
              have "k - 1 < k" using 2(2) by simp
              from less.IH[OF this] r1 consider "t \<in> ?E'"
                | e where "e \<in> set ?q'" "length (snd e) \<le> k - 1"
                    "reach_le succs (k - 1 - length (snd e)) (fst e) t"
                by blast
              then show ?thesis
              proof cases
                case 1
                then show ?thesis by simp
              next
                case 2
                from 2(3) have "reach_le succs (k - length (snd e)) (fst e) t"
                  by (rule reach_le_mono) simp
                with 2(1,2) show ?thesis by (intro disjI2 bexI[of _ e]) auto
              qed
            next
              assume "\<exists>e\<in>set ?q'. fst e = u"
              then obtain e where e: "e \<in> set ?q'" "fst e = u" by blast
              with lq' have le: "length (snd e) \<le> Suc (length ps)" by blast
              with 2(2) have "length (snd e) \<le> k" by simp
              moreover from 2(3) have "reach_le succs (k - length (snd e)) (fst e) t"
                unfolding e(2) by (rule reach_le_mono) (use le in simp)
              ultimately show ?thesis using e(1) by blast
            qed
          qed
        qed
      qed
    qed
  qed
  show ?thesis
    unfolding bfs_inv_def using n1 n2 n3 n4 n5 n6 n7 n8 by blast
qed

lemma bfs_solved_shortest:
  assumes "bfs_inv succs goal s0 q vis" "solved (bfs succs goal maxStates q vis n)"
  shows "\<exists>t. follows succs s0 (moves (bfs succs goal maxStates q vis n)) t \<and> goal t \<and>
           (\<forall>p t'. follows succs s0 p t' \<and> goal t' \<longrightarrow>
              length (moves (bfs succs goal maxStates q vis n)) \<le> length p)"
  using assms
proof (induction succs goal maxStates q vis n rule: bfs.induct)
  case (1 succs goal maxStates vis explored)
  then show ?case by simp
next
  case (2 succs goal maxStates s p q vis explored)
  show ?case
  proof (cases "goal s")
    case True
    from "2.prems"(1) have f: "follows succs s0 p s"
      unfolding bfs_inv_def by simp
    have "length p \<le> length p'" if r: "follows succs s0 p' t'" and g: "goal t'" for p' t'
    proof -
      from r have "reach_le succs (length p') s0 t'" by (rule reach_le_follows) simp
      with "2.prems"(1) have "t' \<in> expanded ((s, p) # q) vis \<or>
          (\<exists>e\<in>set ((s, p) # q). length (snd e) \<le> length p')"
        unfolding bfs_inv_def by blast
      moreover from "2.prems"(1) g have "t' \<notin> expanded ((s, p) # q) vis"
        unfolding bfs_inv_def by blast
      moreover from "2.prems"(1) have "\<forall>e\<in>set ((s, p) # q). length p \<le> length (snd e)"
        unfolding bfs_inv_def by auto
      ultimately show ?thesis by fastforce
    qed
    with True f show ?thesis by auto
  next
    case False
    show ?thesis
    proof (cases "maxStates \<le> explored")
      case True
      with False "2.prems"(2) show ?thesis by simp
    next
      case lim: False
      have e: "bfs succs goal maxStates ((s, p) # q) vis explored
          = bfs succs goal maxStates (fst (expand succs s p q vis)) (snd (expand succs s p q vis))
              (Suc explored)"
        using False lim by simp
      from bfs_inv_step[OF "2.prems"(1) False] "2.prems"(2) "2.IH"[OF False lim]
      show ?thesis unfolding e by blast
    qed
  qed
qed

lemma legal_pair_bounds:
  "legal_pair capacity blocked s src dst \<Longrightarrow> src < length s \<and> dst < length s"
  unfolding legal_pair_def by simp

lemma in_successors:
  "(x \<in> set (successors capacity blocked s)) =
     (\<exists>src dst. legal_pair capacity blocked s src dst \<and>
        x = (move_of capacity s src dst, applyMove s (move_of capacity s src dst)))"
proof
  assume "x \<in> set (successors capacity blocked s)"
  then show "\<exists>src dst. legal_pair capacity blocked s src dst \<and>
        x = (move_of capacity s src dst, applyMove s (move_of capacity s src dst))"
    unfolding successors_def by (auto split: if_splits)
next
  assume "\<exists>src dst. legal_pair capacity blocked s src dst \<and>
        x = (move_of capacity s src dst, applyMove s (move_of capacity s src dst))"
  then obtain src dst where l: "legal_pair capacity blocked s src dst"
    and x: "x = (move_of capacity s src dst, applyMove s (move_of capacity s src dst))"
    by blast
  from legal_pair_bounds[OF l] have "src \<in> set [0..<length s]" "dst \<in> set [0..<length s]"
    by simp_all
  then have sd: "src < length s" "dst < length s" by simp_all
  let ?row = "\<lambda>src. concat (map (\<lambda>dst.
        if legal_pair capacity blocked s src dst
        then [(move_of capacity s src dst, applyMove s (move_of capacity s src dst))]
        else []) [0..<length s])"
  have "x \<in> set (?row src)"
    unfolding set_concat set_map
    by (rule UN_I[of "(\<lambda>dst.
        if legal_pair capacity blocked s src dst
        then [(move_of capacity s src dst, applyMove s (move_of capacity s src dst))]
        else []) dst"]) (use l x sd in auto)
  moreover have "set (?row src) \<subseteq> set (successors capacity blocked s)"
    unfolding successors_def using sd(1) by auto
  ultimately show "x \<in> set (successors capacity blocked s)" by blast
qed

lemma legal_iff:
  "legal capacity blocked s m =
     (\<exists>src dst. legal_pair capacity blocked s src dst \<and> m = move_of capacity s src dst)"
  unfolding legal_def move_of_def by (cases m) auto

lemma set_successors:
  "((m, t) \<in> set (successors capacity blocked s)) = (legal capacity blocked s m \<and> t = applyMove s m)"
  unfolding in_successors legal_iff by blast

lemma follows_play:
  "follows (successors capacity blocked) s p t = (play capacity blocked s p = Some t)"
  by (induction p arbitrary: s) (auto simp: set_successors)

lemma bfs_goal_head:
  "goal s \<Longrightarrow> bfs succs goal maxStates ((s, p) # q) vis n =
     \<lparr>solved = True, moves = p, exploredCount = n, failureReason = None,
      extraUsed = None, extraAllowed = None\<rparr>"
  by simp

definition board2 :: solver_state where
  "board2 = [[1, 2], [2, 1], []]"

lemmas solver_eval = successors_def legal_pair_def move_of_def amount_of_def runLength_def
  topColor_def mono_goal_def expand_def enqueue_step_def upt_conv_Cons

lemma s0: "successors 2 {} [[1, 2], [2, 1], []] =
   [((0, 2, 2, 1), [[1], [2, 1], [2]]), ((1, 2, 1, 1), [[1, 2], [2], [1]])]"
  by (simp add: solver_eval)

lemma sA: "successors 2 {} [[1], [2, 1], [2]] = [((1, 0, 1, 1), [[1, 1], [2], [2]])]"
  by (simp add: solver_eval)

lemma sB: "successors 2 {} [[1, 2], [2], [1]] = [((0, 1, 2, 1), [[1], [2, 2], [1]])]"
  by (simp add: solver_eval)

lemma board2_solved:
  "solveBfs board2 2 {} 200000 Mono =
     \<lparr>solved = True, moves = [(0, 2, 2, 1), (1, 0, 1, 1)], exploredCount = 3,
      failureReason = None, extraUsed = None, extraAllowed = None\<rparr>"
  unfolding solveBfs_def board2_def
  by (simp add: s0 sA sB expand_def enqueue_step_def mono_goal_def topColor_def
        numeral_3_eq_3)

lemma board2_play:
  "play 2 {} board2 [(0, 2, 2, 1), (1, 0, 1, 1)] = Some [[1, 1], [2], [2]]"
  unfolding board2_def
  by (simp add: legal_def legal_pair_def move_of_def amount_of_def runLength_def topColor_def)

text \<open>C4: whenever \<open>solveBfs\<close> reports solved, the returned moves are a legal sequence from the
  initial board to a state satisfying the goal predicate, and no legal sequence of moves
  that reaches a goal state is shorter; and the search loop returns at once, without any
  further expansion, when the state it dequeues satisfies the goal predicate.\<close>

theorem solveBfs_shortest_solution:
  assumes "solved (solveBfs initial capacity blocked maxStates goalMode)"
  shows "(\<exists>t. play capacity blocked initial
               (moves (solveBfs initial capacity blocked maxStates goalMode)) = Some t \<and>
             goal_of goalMode t) \<and>
         (\<forall>ms t. play capacity blocked initial ms = Some t \<and> goal_of goalMode t \<longrightarrow>
            length (moves (solveBfs initial capacity blocked maxStates goalMode)) \<le> length ms) \<and>
         (\<forall>s p q vis n. goal_of goalMode s \<longrightarrow>
            bfs (successors capacity blocked) (goal_of goalMode) maxStates ((s, p) # q) vis n =
              \<lparr>solved = True, moves = p, exploredCount = n, failureReason = None,
               extraUsed = None, extraAllowed = None\<rparr>)"
proof -
  from bfs_solved_shortest[OF bfs_inv_init, of "successors capacity blocked" "goal_of goalMode"
      maxStates initial 0] assms
  have "\<exists>t. play capacity blocked initial
             (moves (solveBfs initial capacity blocked maxStates goalMode)) = Some t \<and>
           goal_of goalMode t \<and>
           (\<forall>ms t'. play capacity blocked initial ms = Some t' \<and> goal_of goalMode t' \<longrightarrow>
              length (moves (solveBfs initial capacity blocked maxStates goalMode)) \<le> length ms)"
    unfolding solveBfs_def follows_play by simp
  then show ?thesis using bfs_goal_head[of "goal_of goalMode"] by blast
qed

theorem solveBfs_shortest_solution_witness:
  "solved (solveBfs board2 2 {} 200000 Mono) \<and>
   moves (solveBfs board2 2 {} 200000 Mono) = [(0, 2, 2, 1), (1, 0, 1, 1)] \<and>
   play 2 {} board2 [(0, 2, 2, 1), (1, 0, 1, 1)] = Some [[1, 1], [2], [2]] \<and>
   mono_goal [[1, 1], [2], [2]] \<and>
   \<not> (\<exists>ms t. length ms < 2 \<and> play 2 {} board2 ms = Some t \<and> mono_goal t)"
proof -
  have s: "solved (solveBfs board2 2 {} 200000 Mono)" by (simp add: board2_solved)
  from solveBfs_shortest_solution[OF s]
  have "\<forall>ms t'. play 2 {} board2 ms = Some t' \<and> goal_of Mono t' \<longrightarrow>
      length (moves (solveBfs board2 2 {} 200000 Mono)) \<le> length ms" by blast
  then have n: "\<not> (\<exists>ms t. length ms < 2 \<and> play 2 {} board2 ms = Some t \<and> mono_goal t)"
    by (auto simp: board2_solved)
  have m: "moves (solveBfs board2 2 {} 200000 Mono) = [(0, 2, 2, 1), (1, 0, 1, 1)]"
    by (simp add: board2_solved)
  have g: "mono_goal [[1, 1], [2], [2]]" by (simp add: mono_goal_def topColor_def)
  from s m board2_play g n show ?thesis by (intro conjI)
qed

section \<open>The solve driver of main.js\<close>

text \<open>The fields of \<^verbatim>\<open>parseResult\<close> that \<^verbatim>\<open>solveAndRender\<close> reads. A slot holds a color id
  or \<^verbatim>\<open>null\<close>; \<^verbatim>\<open>rock_bottles\<close> may be absent (\<^verbatim>\<open>parseResult.rock_bottles || []\<close>);
  \<^verbatim>\<open>powerups.add_bottles\<close> is \<^verbatim>\<open>null\<close> or the \<^verbatim>\<open>parseInt\<close> of a string of digits, so
  \<open>None\<close> stands for a value that is absent or not a finite number.\<close>

record parse_result =
  pr_capacity :: int
  pr_rock_bottles :: "nat list option"
  pr_bottle_contents_ids :: "int option list list"
  pr_add_bottles :: "int option"

definition DEFAULT_MAX_STATES :: nat where
  "DEFAULT_MAX_STATES = 200000"

definition getExtraBottlesFromPowerup :: "parse_result option \<Rightarrow> nat" where
  "getExtraBottlesFromPowerup parseResult =
     (case parseResult of
        None \<Rightarrow> 0
      | Some pr \<Rightarrow> (case pr_add_bottles pr of
                     None \<Rightarrow> 0
                   | Some n \<Rightarrow> if n \<ge> 0 then nat n else 0))"

fun push_empty :: "'c list list \<Rightarrow> nat \<Rightarrow> 'c list list" where
  "push_empty out 0 = out"
| "push_empty out (Suc k) = push_empty (out @ [[]]) k"

definition addExtraEmptyBottles :: "'c list list \<Rightarrow> nat \<Rightarrow> 'c list list" where
  "addExtraEmptyBottles stacks extra = push_empty (map (\<lambda>s. s) stacks) extra"

text \<open>The functions imported from solver.js are parameters of the driver: \<open>solver\<close> stands for
  \<^verbatim>\<open>solveBfs\<close> with its arguments (initial stacks, capacity, rock set, maxStates, goal mode),
  \<open>applyMv\<close> for \<^verbatim>\<open>applyMove\<close>, beside \<open>contentsToStacksTopBottom\<close>. The local variables of \<^verbatim>\<open>solveAndRender\<close>
  are a record; \<open>solver_calls\<close> logs the arguments of every call of the solver, in order.\<close>

type_synonym solver_args = "int list list \<times> int \<times> nat set \<times> nat \<times> goal_mode"

record 'm solve_vars =
  chosenInfo :: "'m solve_info option"
  chosenInitial :: "int list list option"
  lastInfo :: "'m solve_info option"
  lastInitial :: "int list list option"
  solver_calls :: "solver_args list"

function try_extra ::
  "(int list list \<Rightarrow> int \<Rightarrow> nat set \<Rightarrow> nat \<Rightarrow> goal_mode \<Rightarrow> 'm solve_info) \<Rightarrow>
   int list list \<Rightarrow> int \<Rightarrow> nat set \<Rightarrow> nat \<Rightarrow> nat \<Rightarrow> nat \<Rightarrow> 'm solve_vars \<Rightarrow> 'm solve_vars" where
  "try_extra solver baseStacks cap rockSet maxStates allowedExtra e vars =
     (if e \<le> allowedExtra then
        let init = addExtraEmptyBottles baseStacks e;
            info = (solver init cap rockSet maxStates Mono)
                     \<lparr>extraUsed := Some e, extraAllowed := Some allowedExtra\<rparr>;
            vars1 = vars\<lparr>lastInfo := Some info, lastInitial := Some init,
                        solver_calls := solver_calls vars @ [(init, cap, rockSet, maxStates, Mono)]\<rparr>
        in if solved info
           then vars1\<lparr>chosenInfo := Some info, chosenInitial := Some init\<rparr>
           else try_extra solver baseStacks cap rockSet maxStates allowedExtra (Suc e) vars1
      else vars)"
  by pat_completeness auto
termination
  by (relation "measure (\<lambda>(solver, baseStacks, cap, rockSet, maxStates, allowedExtra, e, vars).
        Suc allowedExtra - e)") auto

declare try_extra.simps [simp del]

text \<open>What \<^verbatim>\<open>solveAndRender\<close> hands to \<^verbatim>\<open>renderOutput\<close>, with the log of the solver calls;
  \<open>None\<close> when it returns at once because there is no \<^verbatim>\<open>parseResult\<close>.\<close>

record 'm rendered =
  out_initial :: "int list list option"
  out_final :: "int list list option"
  out_info :: "'m solve_info option"
  out_calls :: "solver_args list"

definition rockSet_of :: "parse_result \<Rightarrow> nat set" where
  "rockSet_of pr = (case pr_rock_bottles pr of None \<Rightarrow> {} | Some xs \<Rightarrow> set xs)"

definition baseStacks_of :: "(int option list \<Rightarrow> int \<Rightarrow> int list) \<Rightarrow> parse_result \<Rightarrow> int list list" where
  "baseStacks_of contentsToStacksTopBottom pr =
     map (\<lambda>slots. contentsToStacksTopBottom slots (pr_capacity pr)) (pr_bottle_contents_ids pr)"

definition solveAndRender ::
  "(int list list \<Rightarrow> int \<Rightarrow> nat set \<Rightarrow> nat \<Rightarrow> goal_mode \<Rightarrow> 'm solve_info) \<Rightarrow>
   (int option list \<Rightarrow> int \<Rightarrow> int list) \<Rightarrow> (int list list \<Rightarrow> 'm \<Rightarrow> int list list) \<Rightarrow>
   parse_result option \<Rightarrow> 'm rendered option" where
  "solveAndRender solver contentsToStacksTopBottom applyMv parseResult =
     (case parseResult of
        None \<Rightarrow> None
      | Some pr \<Rightarrow>
          let cap = pr_capacity pr;
              rockSet = rockSet_of pr;
              maxStates = max 1000 DEFAULT_MAX_STATES;
              baseStacks = baseStacks_of contentsToStacksTopBottom pr;
              allowedExtra = getExtraBottlesFromPowerup parseResult;
              vars = try_extra solver baseStacks cap rockSet maxStates allowedExtra 0
                       \<lparr>chosenInfo = None, chosenInitial = None, lastInfo = None,
                        lastInitial = None, solver_calls = []\<rparr>;
              vars2 = (if chosenInfo vars = None
                       then vars\<lparr>chosenInfo := lastInfo vars, chosenInitial := lastInitial vars\<rparr>
                       else vars);
              finalStacks = (case chosenInfo vars2 of
                               None \<Rightarrow> None
                             | Some info \<Rightarrow>
                                 if solved info
                                 then (case chosenInitial vars2 of
                                         None \<Rightarrow> None
                                       | Some init \<Rightarrow> Some (foldl applyMv init (moves info)))
                                 else None)
          in Some \<lparr>out_initial = chosenInitial vars2, out_final = finalStacks,
                   out_info = chosenInfo vars2, out_calls = solver_calls vars2\<rparr>)"

text \<open>The solver call of attempt \<open>e\<close> and its result.\<close>

definition attempt_args ::
  "(int option list \<Rightarrow> int \<Rightarrow> int list) \<Rightarrow> parse_result \<Rightarrow> nat \<Rightarrow> solver_args" where
  "attempt_args c2s pr e =
     (baseStacks_of c2s pr @ replicate e [], pr_capacity pr, rockSet_of pr,
      max 1000 DEFAULT_MAX_STATES, Mono)"

definition attempt ::
  "(int list list \<Rightarrow> int \<Rightarrow> nat set \<Rightarrow> nat \<Rightarrow> goal_mode \<Rightarrow> 'm solve_info) \<Rightarrow>
   (int option list \<Rightarrow> int \<Rightarrow> int list) \<Rightarrow> parse_result \<Rightarrow> nat \<Rightarrow> 'm solve_info" where
  "attempt solver c2s pr e =
     (case attempt_args c2s pr e of (init, cap, rockSet, maxStates, mode) \<Rightarrow>
        solver init cap rockSet maxStates mode)"

lemma push_empty_replicate: "push_empty out k = out @ replicate k []"
  by (induction k arbitrary: out) (simp_all add: replicate_app_Cons_same)

lemma addExtraEmptyBottles_eq: "addExtraEmptyBottles stacks extra = stacks @ replicate extra []"
  unfolding addExtraEmptyBottles_def by (simp add: push_empty_replicate)

lemma try_extra_unfold:
  "e \<le> A \<Longrightarrow> try_extra solver base cap rs ms A e vars =
     (let info = (solver (base @ replicate e []) cap rs ms Mono)
                   \<lparr>extraUsed := Some e, extraAllowed := Some A\<rparr>;
          vars1 = vars\<lparr>lastInfo := Some info, lastInitial := Some (base @ replicate e []),
                      solver_calls := solver_calls vars @ [(base @ replicate e [], cap, rs, ms, Mono)]\<rparr>
      in if solved (solver (base @ replicate e []) cap rs ms Mono)
         then vars1\<lparr>chosenInfo := Some info, chosenInitial := Some (base @ replicate e [])\<rparr>
         else try_extra solver base cap rs ms A (Suc e) vars1)"
  by (subst try_extra.simps) (simp add: addExtraEmptyBottles_eq Let_def)

lemma try_extra_done: "A < e \<Longrightarrow> try_extra solver base cap rs ms A e vars = vars"
  by (subst try_extra.simps) simp

lemma try_extra_run:
  assumes "e \<le> A" "chosenInfo vars = None"
  shows "\<exists>k. e \<le> k \<and> k \<le> A \<and>
      (\<forall>j. e \<le> j \<and> j < k \<longrightarrow> \<not> solved (solver (base @ replicate j []) cap rs ms Mono)) \<and>
      (solved (solver (base @ replicate k []) cap rs ms Mono) \<or> k = A) \<and>
      lastInfo (try_extra solver base cap rs ms A e vars) =
        Some ((solver (base @ replicate k []) cap rs ms Mono)
                \<lparr>extraUsed := Some k, extraAllowed := Some A\<rparr>) \<and>
      lastInitial (try_extra solver base cap rs ms A e vars) = Some (base @ replicate k []) \<and>
      solver_calls (try_extra solver base cap rs ms A e vars) =
        solver_calls vars @ map (\<lambda>j. (base @ replicate j [], cap, rs, ms, Mono)) [e..<Suc k] \<and>
      (chosenInfo (try_extra solver base cap rs ms A e vars) = None \<or>
       chosenInfo (try_extra solver base cap rs ms A e vars) =
         lastInfo (try_extra solver base cap rs ms A e vars) \<and>
       chosenInitial (try_extra solver base cap rs ms A e vars) =
         lastInitial (try_extra solver base cap rs ms A e vars))"
  using assms
proof (induction "A - e" arbitrary: e vars)
  case 0
  then have eA: "e = A" by simp
  show ?case
  proof (rule exI[of _ e], cases "solved (solver (base @ replicate e []) cap rs ms Mono)")
    case True
    then show "e \<le> e \<and> e \<le> A \<and>
      (\<forall>j. e \<le> j \<and> j < e \<longrightarrow> \<not> solved (solver (base @ replicate j []) cap rs ms Mono)) \<and>
      (solved (solver (base @ replicate e []) cap rs ms Mono) \<or> e = A) \<and>
      lastInfo (try_extra solver base cap rs ms A e vars) =
        Some ((solver (base @ replicate e []) cap rs ms Mono)
                \<lparr>extraUsed := Some e, extraAllowed := Some A\<rparr>) \<and>
      lastInitial (try_extra solver base cap rs ms A e vars) = Some (base @ replicate e []) \<and>
      solver_calls (try_extra solver base cap rs ms A e vars) =
        solver_calls vars @ map (\<lambda>j. (base @ replicate j [], cap, rs, ms, Mono)) [e..<Suc e] \<and>
      (chosenInfo (try_extra solver base cap rs ms A e vars) = None \<or>
       chosenInfo (try_extra solver base cap rs ms A e vars) =
         lastInfo (try_extra solver base cap rs ms A e vars) \<and>
       chosenInitial (try_extra solver base cap rs ms A e vars) =
         lastInitial (try_extra solver base cap rs ms A e vars))"
      using "0.prems" by (auto simp: try_extra_unfold Let_def)
  next
    case False
    then show "e \<le> e \<and> e \<le> A \<and>
      (\<forall>j. e \<le> j \<and> j < e \<longrightarrow> \<not> solved (solver (base @ replicate j []) cap rs ms Mono)) \<and>
      (solved (solver (base @ replicate e []) cap rs ms Mono) \<or> e = A) \<and>
      lastInfo (try_extra solver base cap rs ms A e vars) =
        Some ((solver (base @ replicate e []) cap rs ms Mono)
                \<lparr>extraUsed := Some e, extraAllowed := Some A\<rparr>) \<and>
      lastInitial (try_extra solver base cap rs ms A e vars) = Some (base @ replicate e []) \<and>
      solver_calls (try_extra solver base cap rs ms A e vars) =
        solver_calls vars @ map (\<lambda>j. (base @ replicate j [], cap, rs, ms, Mono)) [e..<Suc e] \<and>
      (chosenInfo (try_extra solver base cap rs ms A e vars) = None \<or>
       chosenInfo (try_extra solver base cap rs ms A e vars) =
         lastInfo (try_extra solver base cap rs ms A e vars) \<and>
       chosenInitial (try_extra solver base cap rs ms A e vars) =
         lastInitial (try_extra solver base cap rs ms A e vars))"
      using "0.prems" eA by (auto simp: try_extra_unfold Let_def try_extra_done)
  qed
next
  case (Suc n)
  then have lt: "e < A" by simp
  show ?case
  proof (cases "solved (solver (base @ replicate e []) cap rs ms Mono)")
    case True
    show ?thesis
      by (rule exI[of _ e]) (use True Suc.prems in \<open>auto simp: try_extra_unfold Let_def\<close>)
  next
    case False
    let ?info = "(solver (base @ replicate e []) cap rs ms Mono)
                   \<lparr>extraUsed := Some e, extraAllowed := Some A\<rparr>"
    let ?vars1 = "vars\<lparr>lastInfo := Some ?info, lastInitial := Some (base @ replicate e []),
                      solver_calls := solver_calls vars @ [(base @ replicate e [], cap, rs, ms, Mono)]\<rparr>"
    have u: "try_extra solver base cap rs ms A e vars = try_extra solver base cap rs ms A (Suc e) ?vars1"
      using False Suc.prems(1) by (simp add: try_extra_unfold Let_def)
    have "n = A - Suc e" using Suc.hyps(2) by simp
    moreover have "Suc e \<le> A" "chosenInfo ?vars1 = None" using lt Suc.prems(2) by simp_all
    ultimately have "\<exists>k. Suc e \<le> k \<and> k \<le> A \<and>
      (\<forall>j. Suc e \<le> j \<and> j < k \<longrightarrow> \<not> solved (solver (base @ replicate j []) cap rs ms Mono)) \<and>
      (solved (solver (base @ replicate k []) cap rs ms Mono) \<or> k = A) \<and>
      lastInfo (try_extra solver base cap rs ms A (Suc e) ?vars1) =
        Some ((solver (base @ replicate k []) cap rs ms Mono)
                \<lparr>extraUsed := Some k, extraAllowed := Some A\<rparr>) \<and>
      lastInitial (try_extra solver base cap rs ms A (Suc e) ?vars1) = Some (base @ replicate k []) \<and>
      solver_calls (try_extra solver base cap rs ms A (Suc e) ?vars1) =
        solver_calls ?vars1 @ map (\<lambda>j. (base @ replicate j [], cap, rs, ms, Mono)) [Suc e..<Suc k] \<and>
      (chosenInfo (try_extra solver base cap rs ms A (Suc e) ?vars1) = None \<or>
       chosenInfo (try_extra solver base cap rs ms A (Suc e) ?vars1) =
         lastInfo (try_extra solver base cap rs ms A (Suc e) ?vars1) \<and>
       chosenInitial (try_extra solver base cap rs ms A (Suc e) ?vars1) =
         lastInitial (try_extra solver base cap rs ms A (Suc e) ?vars1))"
      by (rule Suc.hyps(1))
    then obtain k where k: "Suc e \<le> k" "k \<le> A"
      "\<forall>j. Suc e \<le> j \<and> j < k \<longrightarrow> \<not> solved (solver (base @ replicate j []) cap rs ms Mono)"
      "solved (solver (base @ replicate k []) cap rs ms Mono) \<or> k = A"
      "lastInfo (try_extra solver base cap rs ms A (Suc e) ?vars1) =
        Some ((solver (base @ replicate k []) cap rs ms Mono)
                \<lparr>extraUsed := Some k, extraAllowed := Some A\<rparr>)"
      "lastInitial (try_extra solver base cap rs ms A (Suc e) ?vars1) = Some (base @ replicate k [])"
      "solver_calls (try_extra solver base cap rs ms A (Suc e) ?vars1) =
        solver_calls ?vars1 @ map (\<lambda>j. (base @ replicate j [], cap, rs, ms, Mono)) [Suc e..<Suc k]"
      "chosenInfo (try_extra solver base cap rs ms A (Suc e) ?vars1) = None \<or>
       chosenInfo (try_extra solver base cap rs ms A (Suc e) ?vars1) =
         lastInfo (try_extra solver base cap rs ms A (Suc e) ?vars1) \<and>
       chosenInitial (try_extra solver base cap rs ms A (Suc e) ?vars1) =
         lastInitial (try_extra solver base cap rs ms A (Suc e) ?vars1)"
      by (elim exE conjE)
    have nj: "\<forall>j. e \<le> j \<and> j < k \<longrightarrow> \<not> solved (solver (base @ replicate j []) cap rs ms Mono)"
    proof (intro allI impI)
      fix j assume "e \<le> j \<and> j < k"
      then consider "j = e" | "Suc e \<le> j \<and> j < k" by linarith
      then show "\<not> solved (solver (base @ replicate j []) cap rs ms Mono)"
        using False k(3) by cases auto
    qed
    have up: "[e..<Suc k] = e # [Suc e..<Suc k]" using k(1) by (simp add: upt_conv_Cons)
    show ?thesis
      unfolding u
      apply (rule exI[of _ k])
      apply (intro conjI)
      subgoal using k(1) by simp
      subgoal by (rule k(2))
      subgoal by (rule nj)
      subgoal by (rule k(4))
      subgoal by (rule k(5))
      subgoal by (rule k(6))
      subgoal unfolding k(7) up by simp
      subgoal by (rule k(8))
      done
  qed
qed

lemma attempt_args_stacks:
  "fst (attempt_args c2s pr e) = baseStacks_of c2s pr @ replicate e []"
  unfolding attempt_args_def by simp

lemma length_baseStacks_of: "length (baseStacks_of c2s pr) = length (pr_bottle_contents_ids pr)"
  unfolding baseStacks_of_def by simp

lemma solveAndRender_run:
  "\<exists>k r. solveAndRender solver c2s applyMv (Some pr) = Some r \<and>
      k \<le> getExtraBottlesFromPowerup (Some pr) \<and>
      out_calls r = map (attempt_args c2s pr) [0..<Suc k] \<and>
      (\<forall>e<k. \<not> solved (attempt solver c2s pr e)) \<and>
      (solved (attempt solver c2s pr k) \<or> k = getExtraBottlesFromPowerup (Some pr)) \<and>
      out_info r = Some ((attempt solver c2s pr k)
                     \<lparr>extraUsed := Some k,
                      extraAllowed := Some (getExtraBottlesFromPowerup (Some pr))\<rparr>) \<and>
      out_initial r = Some (fst (attempt_args c2s pr k))"
proof -
  let ?A = "getExtraBottlesFromPowerup (Some pr)"
  let ?base = "baseStacks_of c2s pr"
  let ?ms = "max 1000 DEFAULT_MAX_STATES"
  let ?v0 = "\<lparr>chosenInfo = None, chosenInitial = None, lastInfo = None,
              lastInitial = None, solver_calls = []\<rparr> :: 'a solve_vars"
  let ?R = "try_extra solver ?base (pr_capacity pr) (rockSet_of pr) ?ms ?A 0 ?v0"
  have "0 \<le> ?A" "chosenInfo ?v0 = None" by simp_all
  from try_extra_run[OF this, of solver ?base "pr_capacity pr" "rockSet_of pr" ?ms]
  obtain k where k: "k \<le> ?A"
    "\<forall>j. 0 \<le> j \<and> j < k \<longrightarrow>
       \<not> solved (solver (?base @ replicate j []) (pr_capacity pr) (rockSet_of pr) ?ms Mono)"
    "solved (solver (?base @ replicate k []) (pr_capacity pr) (rockSet_of pr) ?ms Mono) \<or> k = ?A"
    "lastInfo ?R = Some ((solver (?base @ replicate k []) (pr_capacity pr) (rockSet_of pr) ?ms Mono)
                \<lparr>extraUsed := Some k, extraAllowed := Some ?A\<rparr>)"
    "lastInitial ?R = Some (?base @ replicate k [])"
    "solver_calls ?R = solver_calls ?v0 @
       map (\<lambda>j. (?base @ replicate j [], pr_capacity pr, rockSet_of pr, ?ms, Mono)) [0..<Suc k]"
    "chosenInfo ?R = None \<or> chosenInfo ?R = lastInfo ?R \<and> chosenInitial ?R = lastInitial ?R"
    by (elim exE conjE)
  let ?R2 = "if chosenInfo ?R = None
             then ?R\<lparr>chosenInfo := lastInfo ?R, chosenInitial := lastInitial ?R\<rparr> else ?R"
  have c: "chosenInfo ?R2 = lastInfo ?R" "chosenInitial ?R2 = lastInitial ?R"
    "solver_calls ?R2 = solver_calls ?R"
    using k(7) by auto
  have at: "\<And>e. attempt solver c2s pr e =
      solver (?base @ replicate e []) (pr_capacity pr) (rockSet_of pr) ?ms Mono"
    unfolding attempt_def attempt_args_def by simp
  have ar: "attempt_args c2s pr = (\<lambda>j. (?base @ replicate j [], pr_capacity pr, rockSet_of pr, ?ms, Mono))"
    unfolding attempt_args_def by (rule refl)
  obtain r where r: "solveAndRender solver c2s applyMv (Some pr) = Some r"
    "out_info r = chosenInfo ?R2" "out_initial r = chosenInitial ?R2" "out_calls r = solver_calls ?R2"
    unfolding solveAndRender_def by (simp add: Let_def)
  show ?thesis
    apply (rule exI[of _ k], rule exI[of _ r])
    apply (intro conjI)
    subgoal by (rule r(1))
    subgoal by (rule k(1))
    subgoal using r(4)[unfolded c(3), unfolded k(6)] unfolding ar by simp
    subgoal unfolding at using k(2) by simp
    subgoal unfolding at by (rule k(3))
    subgoal using r(2)[unfolded c(1), unfolded k(4)] unfolding at .
    subgoal using r(3)[unfolded c(2), unfolded k(5)] unfolding attempt_args_stacks .
    done
qed

text \<open>C7: \<^verbatim>\<open>solveAndRender\<close> calls the solver with e = 0, 1, ..., k extra empty bottles
  appended to the base stacks, in this order and with nothing else changed, where k is the
  first e whose result is solved, or the allowed number of extra bottles when none is; it
  reports the result of attempt k with \<^verbatim>\<open>extraUsed\<close> = k and the stacks of attempt k. Every
  appended bottle is empty and, the rock indices being indices of analyzed bottles, is not
  in the rock set.\<close>

theorem solveAndRender_tries_extras_in_order:
  assumes "\<forall>i\<in>rockSet_of pr. i < length (pr_bottle_contents_ids pr)"
  shows "\<exists>k r. solveAndRender solver c2s applyMv (Some pr) = Some r \<and>
      k \<le> getExtraBottlesFromPowerup (Some pr) \<and>
      out_calls r = map (attempt_args c2s pr) [0..<Suc k] \<and>
      (\<forall>e<k. \<not> solved (attempt solver c2s pr e)) \<and>
      (solved (attempt solver c2s pr k) \<or> k = getExtraBottlesFromPowerup (Some pr)) \<and>
      out_info r = Some ((attempt solver c2s pr k)
                     \<lparr>extraUsed := Some k,
                      extraAllowed := Some (getExtraBottlesFromPowerup (Some pr))\<rparr>) \<and>
      out_initial r = Some (fst (attempt_args c2s pr k)) \<and>
      (\<forall>e. fst (attempt_args c2s pr e) = baseStacks_of c2s pr @ replicate e [] \<and>
           (\<forall>i. length (baseStacks_of c2s pr) \<le> i \<and> i < length (fst (attempt_args c2s pr e)) \<longrightarrow>
                fst (attempt_args c2s pr e) ! i = [] \<and> i \<notin> rockSet_of pr))"
proof -
  have x: "\<forall>e. fst (attempt_args c2s pr e) = baseStacks_of c2s pr @ replicate e [] \<and>
           (\<forall>i. length (baseStacks_of c2s pr) \<le> i \<and> i < length (fst (attempt_args c2s pr e)) \<longrightarrow>
                fst (attempt_args c2s pr e) ! i = [] \<and> i \<notin> rockSet_of pr)"
    using assms by (auto simp: attempt_args_stacks nth_append length_baseStacks_of)
  from solveAndRender_run[of solver c2s applyMv pr] x show ?thesis by blast
qed

definition slots_to_stack :: "int option list \<Rightarrow> int \<Rightarrow> int list" where
  "slots_to_stack slots cap = map the (filter (\<lambda>x. x \<noteq> None) slots)"

definition rock_board :: parse_result where
  "rock_board = \<lparr>pr_capacity = 2, pr_rock_bottles = Some [0],
                  pr_bottle_contents_ids = [[Some 1, None], [Some 1, Some 2]],
                  pr_add_bottles = Some 1\<rparr>"

lemma rock_board_args:
  "attempt_args slots_to_stack rock_board e = ([[1], [1, 2]] @ replicate e [], 2, {0}, 200000, Mono)"
  unfolding attempt_args_def baseStacks_of_def rockSet_of_def rock_board_def slots_to_stack_def
    DEFAULT_MAX_STATES_def by simp

lemma rock_board_extra: "getExtraBottlesFromPowerup (Some rock_board) = 1"
  unfolding getExtraBottlesFromPowerup_def rock_board_def by simp

lemma rock_board_rocks: "rockSet_of rock_board = {0}"
  unfolding rockSet_of_def rock_board_def by simp

lemma rock_s0: "successors 2 {0} [[1], [1, 2]] = []"
  by (simp add: solver_eval)

lemma rock_s1: "successors 2 {0} [[1], [1, 2], []] = [((1, 2, 2, 1), [[1], [1], [2]])]"
  by (simp add: solver_eval)

lemma rock_board_unsolved:
  "solveBfs [[1], [1, 2]] 2 {0} 200000 Mono =
     \<lparr>solved = False, moves = [], exploredCount = 1, failureReason = Some queueExhausted,
      extraUsed = None, extraAllowed = None\<rparr>"
  unfolding solveBfs_def
  by (simp add: rock_s0 expand_def enqueue_step_def mono_goal_def topColor_def)

lemma rock_board_solved:
  "solveBfs [[1], [1, 2], []] 2 {0} 200000 Mono =
     \<lparr>solved = True, moves = [(1, 2, 2, 1)], exploredCount = 1, failureReason = None,
      extraUsed = None, extraAllowed = None\<rparr>"
  unfolding solveBfs_def
  by (simp add: rock_s1 expand_def enqueue_step_def mono_goal_def topColor_def)

lemma rock_board_attempts:
  "attempt (\<lambda>init cap. solveBfs init (nat cap)) slots_to_stack rock_board 0 =
     \<lparr>solved = False, moves = [], exploredCount = 1, failureReason = Some queueExhausted,
      extraUsed = None, extraAllowed = None\<rparr>"
  "attempt (\<lambda>init cap. solveBfs init (nat cap)) slots_to_stack rock_board 1 =
     \<lparr>solved = True, moves = [(1, 2, 2, 1)], exploredCount = 1, failureReason = None,
      extraUsed = None, extraAllowed = None\<rparr>"
  unfolding attempt_def rock_board_args
  by (simp_all add: rock_board_unsolved rock_board_solved)

theorem solveAndRender_tries_extras_in_order_witness:
  "\<exists>r. solveAndRender (\<lambda>init cap. solveBfs init (nat cap)) slots_to_stack applyMove
          (Some rock_board) = Some r \<and>
       out_calls r = [([[1], [1, 2]], 2, {0}, 200000, Mono),
                      ([[1], [1, 2], []], 2, {0}, 200000, Mono)] \<and>
       out_initial r = Some [[1], [1, 2], []] \<and>
       out_info r = Some \<lparr>solved = True, moves = [(1, 2, 2, 1)], exploredCount = 1,
                           failureReason = None, extraUsed = Some 1, extraAllowed = Some 1\<rparr> \<and>
       [[1], [1, 2], []] ! 2 = [] \<and> 2 \<notin> rockSet_of rock_board"
proof -
  let ?solver = "\<lambda>init cap. solveBfs init (nat cap)"
  have h: "\<forall>i\<in>rockSet_of rock_board. i < length (pr_bottle_contents_ids rock_board)"
    by (simp add: rock_board_rocks) (simp add: rock_board_def)
  from solveAndRender_tries_extras_in_order[OF h, of ?solver slots_to_stack applyMove]
  obtain k r where kr:
    "solveAndRender ?solver slots_to_stack applyMove (Some rock_board) = Some r"
    "k \<le> getExtraBottlesFromPowerup (Some rock_board)"
    "out_calls r = map (attempt_args slots_to_stack rock_board) [0..<Suc k]"
    "solved (attempt ?solver slots_to_stack rock_board k) \<or>
       k = getExtraBottlesFromPowerup (Some rock_board)"
    "out_info r = Some ((attempt ?solver slots_to_stack rock_board k)
                     \<lparr>extraUsed := Some k,
                      extraAllowed := Some (getExtraBottlesFromPowerup (Some rock_board))\<rparr>)"
    "out_initial r = Some (fst (attempt_args slots_to_stack rock_board k))"
    by (elim exE conjE)
  have "k \<noteq> 0"
  proof
    assume "k = 0"
    with kr(4) show False by (simp add: rock_board_attempts rock_board_extra)
  qed
  with kr(2) have k: "k = 1" by (simp add: rock_board_extra)
  have up: "[0..<Suc 1] = [0, 1]" by (simp add: upt_conv_Cons)
  show ?thesis
    apply (rule exI[of _ r])
    apply (intro conjI)
    subgoal by (rule kr(1))
    subgoal using kr(3) unfolding k up by (simp add: rock_board_args)
    subgoal using kr(6) unfolding k by (simp add: rock_board_args)
    subgoal using kr(5) unfolding k rock_board_extra rock_board_attempts(2) by simp
    subgoal by simp
    subgoal by (simp add: rock_board_rocks)
    done
qed

end
